theory Spec2Isabelle
  imports Main "HOL-Library.Sublist"
begin

section \<open>JavaScript strings and arrays\<close>

text \<open>
  Strings are character lists. The helpers below are the \<^verbatim>\<open>String.prototype\<close> and
  \<^verbatim>\<open>Array.prototype\<close> operations that \<^verbatim>\<open>src/full.js\<close> calls, with what JavaScript does at
  the edges written out: a missing array element is \<^verbatim>\<open>undefined\<close> (here \<open>None\<close>), and
  \<^verbatim>\<open>undefined\<close> concatenated to a string is the text \<^verbatim>\<open>undefined\<close>.
\<close>

definition startsWith :: "string \<Rightarrow> string \<Rightarrow> bool" where
  "startsWith s p = (take (length p) s = p)"

text \<open>\<^verbatim>\<open>s.split(sep)\<close> for a non-empty separator (every call site passes one).\<close>

function splitStr :: "string \<Rightarrow> string \<Rightarrow> string list" where
  "splitStr sep [] = [[]]"
| "splitStr sep (c # cs) =
     (if sep \<noteq> [] \<and> startsWith (c # cs) sep
      then [] # splitStr sep (drop (length sep) (c # cs))
      else (case splitStr sep cs of [] \<Rightarrow> [[c]] | h # t \<Rightarrow> (c # h) # t))"
  by pat_completeness auto
termination
  by (relation "measure (\<lambda>(sep, s). length s)") auto

text \<open>\<^verbatim>\<open>xs.join(sep)\<close>.\<close>

fun joinStr :: "string \<Rightarrow> string list \<Rightarrow> string" where
  "joinStr sep [] = []"
| "joinStr sep [x] = x"
| "joinStr sep (x # y # ys) = x @ sep @ joinStr sep (y # ys)"

text \<open>
  \<^verbatim>\<open>s.replace(pat, rep)\<close> with a string pattern: the first occurrence only. The
  replacement texts passed by the source (\<^verbatim>\<open>div\<close>, \<^verbatim>\<open>.tab\<close>, the empty string) contain no
  \<^verbatim>\<open>$\<close>, so no replacement pattern is expanded.
\<close>

fun replaceFirst :: "string \<Rightarrow> string \<Rightarrow> string \<Rightarrow> string" where
  "replaceFirst pat rep [] = (if pat = [] then rep else [])"
| "replaceFirst pat rep (c # cs) =
     (if startsWith (c # cs) pat then rep @ drop (length pat) (c # cs)
      else c # replaceFirst pat rep cs)"

text \<open>
  \<^verbatim>\<open>s.replace(/pat/g, rep)\<close> for a literal, non-empty pattern and a replacement without
  \<^verbatim>\<open>$\<close>: every occurrence, scanned left to right, the replacement is not scanned again.
\<close>

function replaceAll :: "string \<Rightarrow> string \<Rightarrow> string \<Rightarrow> string" where
  "replaceAll pat rep [] = []"
| "replaceAll pat rep (c # cs) =
     (if pat \<noteq> [] \<and> startsWith (c # cs) pat
      then rep @ replaceAll pat rep (drop (length pat) (c # cs))
      else c # replaceAll pat rep cs)"
  by pat_completeness auto
termination
  by (relation "measure (\<lambda>(pat, rep, s). length s)") auto

text \<open>\<^verbatim>\<open>last(x)\<close> of the source: \<^verbatim>\<open>x[x.length - 1]\<close>, \<^verbatim>\<open>undefined\<close> on the empty array.\<close>

definition last_js :: "'a list \<Rightarrow> 'a option" where
  "last_js x = (if x = [] then None else Some (last x))"

text \<open>\<^verbatim>\<open>x[i]\<close>: \<^verbatim>\<open>undefined\<close> out of range.\<close>

definition nth_js :: "'a list \<Rightarrow> nat \<Rightarrow> 'a option" where
  "nth_js x i = (if i < length x then Some (x ! i) else None)"

text \<open>A value that may be \<^verbatim>\<open>undefined\<close>, as the operand of a string concatenation.\<close>

definition str :: "string option \<Rightarrow> string" where
  "str v = (case v of None \<Rightarrow> ''undefined'' | Some s \<Rightarrow> s)"

definition isDigit :: "char \<Rightarrow> bool" where
  "isDigit c = (c \<in> set ''0123456789'')"


section \<open>Errors\<close>

text \<open>
  The exceptions that leave \<^verbatim>\<open>parseFull\<close>: those thrown by the collaborators (the
  templating engine, the YAML parser, the DOM) and JavaScript's own \<^verbatim>\<open>TypeError\<close>.
  The source has no \<^verbatim>\<open>throw\<close> of its own.
\<close>

datatype error =
  TemplateRenderError | MetadataParseError | MathConversionError | TypeError | DOMException


section \<open>The templating engine\<close>

text \<open>
  \<^verbatim>\<open>pug.render\<close> is an external library: the functions that call it take it as a
  parameter, \<open>None\<close> when it throws.
\<close>

type_synonym pug = "string \<Rightarrow> string option"

definition isNameChar :: "char \<Rightarrow> bool" where
  "isNameChar c = (c \<in> set ''abcdefghijklmnopqrstuvwxyz0123456789-'')"

text \<open>
  Modelled from the spec: the templating engine (pug, not under \<^verbatim>\<open>src/\<close>), which
  "accepts a template-language string, returns an HTML string". This instance covers the
  one-line tag templates \<^verbatim>\<open>name\<close>, \<^verbatim>\<open>name.class\<close>, \<^verbatim>\<open>.class\<close>, \<^verbatim>\<open>name(key=value)\<close>, each
  optionally followed by a blank and text content; attributes need the parentheses, and
  whatever follows a blank is text. Every other template is answered \<open>None\<close>. It is
  used for concrete inputs only.
\<close>

definition pug_model :: pug where
  \<open>pug_model t =
    (let name = takeWhile isNameChar t;
         r1 = dropWhile isNameChar t;
         cls = (if startsWith r1 ''.'' then takeWhile isNameChar (drop 1 r1) else []);
         r2 = (if startsWith r1 ''.'' then dropWhile isNameChar (drop 1 r1) else r1);
         inner = (if startsWith r2 ''('' then takeWhile (\<lambda>c. c \<noteq> CHR 0x29) (drop 1 r2) else []);
         r3 = (if startsWith r2 ''('' then drop 1 (dropWhile (\<lambda>c. c \<noteq> CHR 0x29) (drop 1 r2)) else r2);
         key = takeWhile (\<lambda>c. c \<noteq> CHR ''='') inner;
         val = drop 1 (dropWhile (\<lambda>c. c \<noteq> CHR ''='') inner);
         el = (if name = [] then ''div'' else name)
     in if (name = [] \<and> cls = []) \<or> (r3 \<noteq> [] \<and> \<not> startsWith r3 '' '') then None
        else Some (''<'' @ el
               @ (if cls = [] then [] else '' class="'' @ cls @ ''"'')
               @ (if inner = [] then [] else '' '' @ key @ ''="'' @ val @ ''"'')
               @ ''>'' @ drop 1 r3 @ ''</'' @ el @ ''>''))\<close>


section \<open>Block structure: \<^verbatim>\<open>blockIndentation\<close>\<close>

text \<open>
  \<^verbatim>\<open>col.replace(/width="([0-9]+)"/, 'style="width: $1px"')\<close>: the leftmost place where
  \<^verbatim>\<open>width="\<close>, one or more digits and \<^verbatim>\<open>"\<close> follow each other.
\<close>

definition matchWidth :: "string \<Rightarrow> (string \<times> string) option" where
  \<open>matchWidth s =
    (if startsWith s ''width="'' then
       (let ds = takeWhile isDigit (drop 7 s); r = dropWhile isDigit (drop 7 s)
        in if ds \<noteq> [] \<and> startsWith r ''"'' then Some (ds, drop 1 r) else None)
     else None)\<close>

fun replaceWidth :: "string \<Rightarrow> string" where
  "replaceWidth [] = []"
| "replaceWidth (c # cs) =
     (case matchWidth (c # cs) of
        Some (ds, r) \<Rightarrow> ''style=\"width: '' @ ds @ ''px\"'' @ r
      | None \<Rightarrow> c # replaceWidth cs)"

definition consR :: "'a \<Rightarrow> error + 'a list \<Rightarrow> error + 'a list" where
  "consR x r = (case r of Inl e \<Rightarrow> Inl e | Inr xs \<Rightarrow> Inr (x # xs))"

text \<open>
  The loop of \<^verbatim>\<open>blockIndentation\<close> over the lines, with the two stacks \<^verbatim>\<open>closeTags\<close> and
  \<^verbatim>\<open>nested\<close> (top at the end, as \<^verbatim>\<open>push\<close> and \<^verbatim>\<open>pop\<close> have it). \<^verbatim>\<open>pop\<close> on an empty array
  returns \<^verbatim>\<open>undefined\<close> and leaves the array empty.
\<close>

fun blockLines :: "pug \<Rightarrow> string list \<Rightarrow> string list \<Rightarrow> string list \<Rightarrow> error + string list" where
  "blockLines pug closeTags nested [] = Inr []"
| "blockLines pug closeTags nested (l # ls) =
    (if \<not> startsWith l '':::'' then consR l (blockLines pug closeTags nested ls)
     else let tag = drop 4 l in
       if tag = [] then
         consR (''\<newline>'' @ str (last_js closeTags) @ ''\<newline>'')
           (blockLines pug (butlast closeTags) (butlast nested) ls)
       else if startsWith tag ''column'' then
         (case pug (replaceFirst ''column'' ''div'' tag) of
            None \<Rightarrow> Inl TemplateRenderError
          | Some h \<Rightarrow>
             (let col = replaceWidth (str (nth_js (splitStr ''</'' h) 0)) in
              if last_js nested = Some ''column''
              then consR (''\<newline></div>'' @ col @ ''\<newline>'') (blockLines pug closeTags nested ls)
              else consR (''<div class=\"row padded\">'' @ col @ ''\<newline>'')
                     (blockLines pug (closeTags @ [''</div></div>'']) (nested @ [''column'']) ls)))
       else if startsWith tag ''tab'' then
         (case pug (replaceFirst ''tab'' ''.tab'' tag) of
            None \<Rightarrow> Inl TemplateRenderError
          | Some h \<Rightarrow>
             (let col = str (nth_js (splitStr ''</'' h) 0) in
              if last_js nested = Some ''tab''
              then consR (''\<newline></div>'' @ col @ ''\<newline>'') (blockLines pug closeTags nested ls)
              else consR (''<x-tabbox>'' @ col @ ''\<newline>'')
                     (blockLines pug (closeTags @ [''</div></x-tabbox>'']) (nested @ [''tab'']) ls)))
       else
         (case pug tag of
            None \<Rightarrow> Inl TemplateRenderError
          | Some h \<Rightarrow>
             (let wrap = splitStr ''</'' h in
              consR (str (nth_js wrap 0) @ ''\<newline>'')
                (blockLines pug (closeTags @ [''</'' @ str (nth_js wrap 1)]) (nested @ ['''']) ls))))"

definition blockIndentation :: "pug \<Rightarrow> string \<Rightarrow> error + string" where
  "blockIndentation pug source =
     (case blockLines pug [] [] (splitStr ''\<newline>'' source) of
        Inl e \<Rightarrow> Inl e
      | Inr lines \<Rightarrow> Inr (joinStr ''\<newline>'' lines))"

text \<open>
  The template text that \<^verbatim>\<open>blockIndentation\<close> hands to the templating engine for an
  open marker with tag \<open>tag\<close> (the argument of \<^verbatim>\<open>pug.render\<close> in each of the three
  branches).
\<close>

definition templateOf :: "string \<Rightarrow> string" where
  "templateOf tag =
     (if startsWith tag ''column'' then replaceFirst ''column'' ''div'' tag
      else if startsWith tag ''tab'' then replaceFirst ''tab'' ''.tab'' tag
      else tag)"


section \<open>Text preprocessing\<close>

text \<open>\<^verbatim>\<open>s.includes(pat)\<close>: the text \<open>pat\<close> occurs in \<open>s\<close>.\<close>

fun includes_js :: "string \<Rightarrow> string \<Rightarrow> bool" where
  "includes_js [] pat = (pat = [])"
| "includes_js (c # cs) pat = (startsWith (c # cs) pat \<or> includes_js cs pat)"

text \<open>
  The replacement text of \<^verbatim>\<open>String.prototype.replace\<close> for a pattern with one capture
  group: \<^verbatim>\<open>$$\<close> is a dollar sign, \<^verbatim>\<open>$&\<close> the match, \<^verbatim>\<open>$`\<close> and \<^verbatim>\<open>$'\<close> the text before and
  after the match, \<^verbatim>\<open>$1\<close> and \<^verbatim>\<open>$01\<close> the group; any other \<^verbatim>\<open>$\<close> stands for itself. The
  template of the image rule holds the caller's \<^verbatim>\<open>id\<close>, so all of these can occur.
\<close>

function expandRepl :: "string \<Rightarrow> string \<Rightarrow> string \<Rightarrow> string \<Rightarrow> string \<Rightarrow> string" where
  "expandRepl g m pre post [] = []"
| "expandRepl g m pre post (c # t) =
     (if startsWith (c # t) ''$$'' then ''$'' @ expandRepl g m pre post (drop 1 t)
      else if startsWith (c # t) ''$&'' then m @ expandRepl g m pre post (drop 1 t)
      else if startsWith (c # t) ''$`'' then pre @ expandRepl g m pre post (drop 1 t)
      else if startsWith (c # t) [CHR ''$'', CHR 0x27] then post @ expandRepl g m pre post (drop 1 t)
      else if startsWith (c # t) ''$01'' then g @ expandRepl g m pre post (drop 2 t)
      else if startsWith (c # t) ''$1'' then g @ expandRepl g m pre post (drop 1 t)
      else c # expandRepl g m pre post t)"
  by pat_completeness auto
termination
  by (relation "measure (\<lambda>(g, m, b, a, t). length t)") auto

text \<open>
  The group of \<^verbatim>\<open>/(url\(|src="|href="|background=")images\//\<close> when the pattern matches at
  the start of \<open>s\<close>.
\<close>

definition matchImage :: "string \<Rightarrow> string option" where
  \<open>matchImage s =
     (if startsWith s ''url(images/'' then Some ''url(''
      else if startsWith s ''src="images/'' then Some ''src="''
      else if startsWith s ''href="images/'' then Some ''href="''
      else if startsWith s ''background="images/'' then Some ''background="''
      else None)\<close>

text \<open>
  The global replacement of the image rule; \<open>pre\<close> is the part of the content already
  scanned.
\<close>

function rewriteFrom :: "string \<Rightarrow> string \<Rightarrow> string \<Rightarrow> string" where
  "rewriteFrom ident pre [] = []"
| "rewriteFrom ident pre (c # cs) =
     (case matchImage (c # cs) of
        Some g \<Rightarrow>
          (let m = g @ ''images/''; post = drop (length m) (c # cs)
           in expandRepl g m pre post (''$1/resources/'' @ ident @ ''/images/'')
              @ rewriteFrom ident (pre @ m) post)
      | None \<Rightarrow> c # rewriteFrom ident (pre @ [c]) cs)"
  by pat_completeness auto
termination
  by (relation "measure (\<lambda>(i, b, s). length s)") (auto simp: matchImage_def split: if_splits)

definition rewriteImages :: "string \<Rightarrow> string \<Rightarrow> string" where
  "rewriteImages ident content = rewriteFrom ident [] content"

text \<open>The three renamings of "special attributes", in the order of the source.\<close>

definition renameAttrs :: "string \<Rightarrow> string" where
  "renameAttrs content =
     replaceAll ''animation='' ''data-animation=''
       (replaceAll ''delay='' ''data-delay=''
         (replaceAll ''when='' ''data-when='' content))"

text \<open>The first lines of \<^verbatim>\<open>parseFull\<close>, up to the call of \<^verbatim>\<open>blockIndentation\<close>.\<close>

definition preprocess :: "string \<Rightarrow> string \<Rightarrow> string" where
  "preprocess ident content = renameAttrs (rewriteImages ident content)"

text \<open>
  No proper, non-empty suffix of a pattern is the beginning of \<open>r\<close>: used to state that
  no occurrence of the pattern starts before \<open>r\<close> and ends inside it.
\<close>

fun noOverlap :: "string \<Rightarrow> string \<Rightarrow> bool" where
  "noOverlap [] r = True"
| "noOverlap (c # cs) r = (\<not> startsWith r (c # cs) \<and> noOverlap cs r)"


section \<open>Inline extensions: \<^verbatim>\<open>parseParagraph\<close>\<close>

text \<open>
  The three regular expressions of \<^verbatim>\<open>parseParagraph\<close>. In each, a group \<^verbatim>\<open>([^x]+)\<close> is
  followed by the character \<open>x\<close> itself, so the group can only be the longest run of
  other characters: the match at a position is unique and no backtracking is involved.
  Every function below returns the captured groups and the text after the match.
\<close>

definition isnt :: "char \<Rightarrow> char \<Rightarrow> bool" where
  "isnt x c = (c \<noteq> x)"

text \<open>\<^verbatim>\<open>/\[\[([^\]]+)]]/\<close> at the start of \<open>s\<close>.\<close>

definition matchBlank :: "string \<Rightarrow> (string \<times> string) option" where
  "matchBlank s =
     (if startsWith s ''[['' then
        (let body = takeWhile (isnt CHR '']'') (drop 2 s);
             r = dropWhile (isnt CHR '']'') (drop 2 s)
         in if body \<noteq> [] \<and> startsWith r '']]'' then Some (body, drop 2 r) else None)
      else None)"

text \<open>The replacement function of the first rule.\<close>

definition blank :: "string \<Rightarrow> string" where
  \<open>blank body =
     (if length (splitStr ''|'' body) > 1 then ''<x-blank choices="'' @ body @ ''"></x-blank>''
      else ''<x-blank-input solution="'' @ body @ ''"></x-blank-input>'')\<close>

function blanks :: "string \<Rightarrow> string" where
  "blanks [] = []"
| "blanks (c # cs) =
     (case matchBlank (c # cs) of
        Some (body, r) \<Rightarrow> blank body @ blanks r
      | None \<Rightarrow> c # blanks cs)"
  by pat_completeness auto
termination
proof (relation "measure length")
  fix c cs x body r
  assume "matchBlank (c # cs) = Some x" and "(body, r) = x"
  then have "r = drop 2 (dropWhile (isnt CHR '']'') (drop 2 (c # cs)))"
    by (auto simp: matchBlank_def Let_def split: if_splits)
  moreover have "length (dropWhile (isnt CHR '']'') (drop 2 (c # cs))) \<le> length (drop 2 (c # cs))"
    by (rule length_dropWhile_le)
  ultimately show "(r, c # cs) \<in> measure length" by simp
qed simp_all

text \<open>\<^verbatim>\<open>/\${([^}]+)}{([^}]+)}/\<close> at the start of \<open>s\<close>.\<close>

definition matchBound :: "string \<Rightarrow> (string \<times> string \<times> string) option" where
  "matchBound s =
     (if startsWith s ''${'' then
        (let e = takeWhile (isnt CHR ''}'') (drop 2 s);
             r = dropWhile (isnt CHR ''}'') (drop 2 s)
         in if e \<noteq> [] \<and> startsWith r ''}{'' then
              (let n = takeWhile (isnt CHR ''}'') (drop 2 r);
                   r2 = dropWhile (isnt CHR ''}'') (drop 2 r)
               in if n \<noteq> [] \<and> startsWith r2 ''}'' then Some (e, n, drop 1 r2) else None)
            else None)
      else None)"

text \<open>
  The replacement text \<^verbatim>\<open><x-var bind="$2">${$1}</x-var>\<close>: \<^verbatim>\<open>$2\<close> and \<^verbatim>\<open>$1\<close> are the
  groups, the \<^verbatim>\<open>$\<close> before the brace stands for itself.
\<close>

function bound :: "string \<Rightarrow> string" where
  "bound [] = []"
| "bound (c # cs) =
     (case matchBound (c # cs) of
        Some (e, n, r) \<Rightarrow> ''<x-var bind=\"'' @ n @ ''\">${'' @ e @ ''}</x-var>'' @ bound r
      | None \<Rightarrow> c # bound cs)"
  by pat_completeness auto
termination
proof (relation "measure length")
  fix c cs x e y n r
  assume "matchBound (c # cs) = Some x" and "(e, y) = x" and "(n, r) = y"
  then have r: "r = drop 1 (dropWhile (isnt CHR ''}'')
                   (drop 2 (dropWhile (isnt CHR ''}'') (drop 2 (c # cs)))))"
    by (auto simp: matchBound_def Let_def split: if_splits)
  have "length (dropWhile (isnt CHR ''}'') (drop 2 (dropWhile (isnt CHR ''}'') (drop 2 (c # cs)))))
        \<le> length (drop 2 (dropWhile (isnt CHR ''}'') (drop 2 (c # cs))))"
    by (rule length_dropWhile_le)
  moreover have "length (dropWhile (isnt CHR ''}'') (drop 2 (c # cs))) \<le> length (drop 2 (c # cs))"
    by (rule length_dropWhile_le)
  ultimately show "(r, c # cs) \<in> measure length" using r by simp
qed simp_all

text \<open>\<^verbatim>\<open>/\${([^}]+)}(?!<\/x-var>)/\<close> at the start of \<open>s\<close>.\<close>

definition matchVar :: "string \<Rightarrow> (string \<times> string) option" where
  "matchVar s =
     (if startsWith s ''${'' then
        (let e = takeWhile (isnt CHR ''}'') (drop 2 s);
             r = dropWhile (isnt CHR ''}'') (drop 2 s)
         in if e \<noteq> [] \<and> startsWith r ''}'' \<and> \<not> startsWith (drop 1 r) ''</x-var>''
            then Some (e, drop 1 r) else None)
      else None)"

function vars :: "string \<Rightarrow> string" where
  "vars [] = []"
| "vars (c # cs) =
     (case matchVar (c # cs) of
        Some (e, r) \<Rightarrow> ''<span class=\"var\">${'' @ e @ ''}</span>'' @ vars r
      | None \<Rightarrow> c # vars cs)"
  by pat_completeness auto
termination
proof (relation "measure length")
  fix c cs x e r
  assume "matchVar (c # cs) = Some x" and "(e, r) = x"
  then have "r = drop 1 (dropWhile (isnt CHR ''}'') (drop 2 (c # cs)))"
    by (auto simp: matchVar_def Let_def split: if_splits)
  moreover have "length (dropWhile (isnt CHR ''}'') (drop 2 (c # cs))) \<le> length (drop 2 (c # cs))"
    by (rule length_dropWhile_le)
  ultimately show "(r, c # cs) \<in> measure length" by simp
qed simp_all

text \<open>\<^verbatim>\<open>n.toString(16)\<close>.\<close>

fun hex :: "nat \<Rightarrow> string" where
  "hex n = (if n < 16 then [''0123456789abcdef'' ! n]
            else hex (n div 16) @ [''0123456789abcdef'' ! (n mod 16)])"

text \<open>
  \<^verbatim>\<open>emojiImg\<close>. The emoji symbol is given by its first code point, the only part of it
  that the function reads.
\<close>

definition emojiImg :: "nat \<Rightarrow> string \<Rightarrow> string" where
  \<open>emojiImg symbol name =
     ''<img class="emoji" width="20" height="20" src="/images/emoji/'' @ hex symbol
       @ ''.png" alt="'' @ name @ ''"/>''\<close>

text \<open>
  \<^verbatim>\<open>emoji.emojify(text, onMissing, format)\<close> is an external library: a parameter that
  receives the two callbacks and the text. \<^verbatim>\<open>parseParagraph\<close> passes the identity as
  \<^verbatim>\<open>onMissing\<close> and \<^verbatim>\<open>emojiImg\<close> as \<^verbatim>\<open>format\<close>.
\<close>

type_synonym emojify = "(string \<Rightarrow> string) \<Rightarrow> (nat \<Rightarrow> string \<Rightarrow> string) \<Rightarrow> string \<Rightarrow> string"

definition parseParagraph :: "emojify \<Rightarrow> string \<Rightarrow> string" where
  "parseParagraph emojify text = emojify (\<lambda>x. x) emojiImg (vars (bound (blanks text)))"

text \<open>
  Modelled from the spec: the emoji name resolver (node-emoji, not under \<^verbatim>\<open>src/\<close>), which
  "accepts text, returns text with names replaced via a supplied glyph-to-markup
  callback". A name is a run of letters, digits, \<^verbatim>\<open>_\<close>, \<^verbatim>\<open>-\<close> and \<^verbatim>\<open>+\<close> between two colons
  (\<^verbatim>\<open>/:([a-zA-Z0-9_\-\+]+):/g\<close>); a name of an emoji is replaced by \<^verbatim>\<open>format(emoji, name)\<close>,
  any other name, colons included, by \<^verbatim>\<open>onMissing(name)\<close>. This instance knows the emoji
  \<^verbatim>\<open>heart\<close> (U+2764) and \<^verbatim>\<open>smile\<close> (U+1F604) only. It is used for concrete inputs only.
\<close>

definition isEmojiChar :: "char \<Rightarrow> bool" where
  "isEmojiChar c =
     (c \<in> set ''abcdefghijklmnopqrstuvwxyzABCDEFGHIJKLMNOPQRSTUVWXYZ0123456789_-+'')"

definition matchName :: "string \<Rightarrow> (string \<times> string) option" where
  "matchName s =
     (if startsWith s '':'' then
        (let n = takeWhile isEmojiChar (drop 1 s); r = dropWhile isEmojiChar (drop 1 s)
         in if n \<noteq> [] \<and> startsWith r '':'' then Some (n, drop 1 r) else None)
      else None)"

definition emojiCode :: "string \<Rightarrow> nat option" where
  "emojiCode name =
     (if name = ''heart'' then Some 0x2764 else if name = ''smile'' then Some 0x1F604 else None)"

function emojify_model :: emojify where
  "emojify_model onMissing format [] = []"
| "emojify_model onMissing format (c # cs) =
     (case matchName (c # cs) of
        Some (name, r) \<Rightarrow>
          (case emojiCode name of Some symbol \<Rightarrow> format symbol name | None \<Rightarrow> onMissing name)
            @ emojify_model onMissing format r
      | None \<Rightarrow> c # emojify_model onMissing format cs)"
  by pat_completeness auto
termination
proof (relation "measure (\<lambda>(f, g, s). length s)")
  fix onMissing :: "string \<Rightarrow> string" and format :: "nat \<Rightarrow> string \<Rightarrow> string"
  fix c cs x name r
  assume "matchName (c # cs) = Some x" and "(name, r) = x"
  then have "r = drop 1 (dropWhile isEmojiChar (drop 1 (c # cs)))"
    by (auto simp: matchName_def Let_def split: if_splits)
  moreover have "length (dropWhile isEmojiChar (drop 1 (c # cs))) \<le> length (drop 1 (c # cs))"
    by (rule length_dropWhile_le)
  ultimately show "((onMissing, format, r), (onMissing, format, c # cs))
      \<in> measure (\<lambda>(f, g, s). length s)" by simp
qed simp_all


section \<open>Metadata values and objects\<close>

text \<open>
  The values of metadata keys are scalars; an object is its list of own properties, in
  insertion order. \<^verbatim>\<open>undefined\<close> is \<open>None\<close>.
\<close>

datatype jsval = Str string | Num int | Bool bool | Null

type_synonym obj = "(string \<times> jsval) list"

fun setProp :: "string \<Rightarrow> jsval \<Rightarrow> obj \<Rightarrow> obj" where
  "setProp k v [] = [(k, v)]"
| "setProp k v ((k', v') # ps) = (if k' = k then (k, v) # ps else (k', v') # setProp k v ps)"

definition getProp :: "obj \<Rightarrow> string \<Rightarrow> jsval option" where
  "getProp ob k = map_of ob k"

text \<open>\<^verbatim>\<open>Object.assign(target, source)\<close>.\<close>

definition assign :: "obj \<Rightarrow> obj \<Rightarrow> obj" where
  "assign target source = fold (\<lambda>(k, v). setProp k v) source target"

text \<open>The value as a condition: \<^verbatim>\<open>if (v)\<close>.\<close>

fun truthy :: "jsval option \<Rightarrow> bool" where
  "truthy None = False"
| "truthy (Some (Str s)) = (s \<noteq> [])"
| "truthy (Some (Num n)) = (n \<noteq> 0)"
| "truthy (Some (Bool b)) = b"
| "truthy (Some Null) = False"

fun showNat :: "nat \<Rightarrow> string" where
  "showNat n = (if n < 10 then [''0123456789'' ! n]
                else showNat (n div 10) @ [''0123456789'' ! (n mod 10)])"

text \<open>The value as a string: \<^verbatim>\<open>String(v)\<close>, as an attribute setter of the DOM applies it.\<close>

fun toStr :: "jsval option \<Rightarrow> string" where
  "toStr None = ''undefined''"
| "toStr (Some (Str s)) = s"
| "toStr (Some (Num n)) = (if n < 0 then ''-'' @ showNat (nat (- n)) else showNat (nat n))"
| "toStr (Some (Bool b)) = (if b then ''true'' else ''false'')"
| "toStr (Some Null) = ''null''"


section \<open>The state of the module\<close>

text \<open>
  \<^verbatim>\<open>data.steps\<close> is the array that \<^verbatim>\<open>renderer.hr\<close> pushes to, unless front matter at
  document level has a key \<^verbatim>\<open>steps\<close>: \<^verbatim>\<open>Object.assign(data, ...)\<close> then replaces the array by
  that value.
\<close>

datatype stepsval = Steps "obj list" | Overwritten jsval

record document =
  props :: obj
  steps :: stepsval

text \<open>
  The module-level variables. A JavaScript \<^verbatim>\<open>Set\<close> is the list of its members in
  insertion order. \<^verbatim>\<open>currentStep\<close> is a reference: \<open>Some i\<close> stands for the object at
  index \<open>i\<close> of the array \<^verbatim>\<open>data.steps\<close> (the only assignment, in \<^verbatim>\<open>renderer.hr\<close>, pushes
  the object it creates), and for an object that \<^verbatim>\<open>data\<close> does not hold when there is no
  such index.
\<close>

record state =
  bios :: "string list"
  gloss :: "string list"
  data :: document
  currentStep :: "nat option"
  currentDirectory :: "string option"
  globalPug :: string
  originalP :: "string option"

text \<open>\<^verbatim>\<open>set.add(x)\<close>.\<close>

definition add :: "string \<Rightarrow> string list \<Rightarrow> string list" where
  "add x xs = (if x \<in> set xs then xs else xs @ [x])"

text \<open>\<^verbatim>\<open>Object.assign(data, source)\<close>: the key \<^verbatim>\<open>steps\<close> replaces the array.\<close>

definition assignData :: "document \<Rightarrow> obj \<Rightarrow> document" where
  "assignData d source =
     fold (\<lambda>(k, v) d. if k = ''steps'' then d\<lparr>steps := Overwritten v\<rparr>
                        else d\<lparr>props := setProp k v (props d)\<rparr>) source d"

text \<open>\<^verbatim>\<open>Object.assign(currentStep || data, source)\<close>.\<close>

definition assignCurrent :: "state \<Rightarrow> obj \<Rightarrow> state" where
  "assignCurrent s source =
     (case currentStep s of
        None \<Rightarrow> s\<lparr>data := assignData (data s) source\<rparr>
      | Some i \<Rightarrow>
          (case steps (data s) of
             Steps ss \<Rightarrow>
               if i < length ss
               then s\<lparr>data := (data s)\<lparr>steps := Steps (ss[i := assign (ss ! i) source])\<rparr>\<rparr>
               else s
           | Overwritten v \<Rightarrow> s))"


section \<open>The Markdown engine\<close>

text \<open>
  Modelled from the spec: the Markdown tokenizer and renderer (marked, not under
  \<^verbatim>\<open>src/\<close>), which "accepts source text plus the renderer override table; returns HTML
  text". A document is the token tree that the engine's lexer delivers. Its parser
  renders the children of a token first, in document order, and then calls the renderer
  method of the token on the rendered children; the output of a sequence is the
  concatenation. Constructs whose renderer method the source does not override come with
  the default renderer's text: \<open>Raw\<close> and \<open>Html\<close> are leaves, \<open>Span\<close> and \<open>Wrap\<close> put an opening
  and a closing text around their children (emphasis, lists, tables), \<open>Inline\<close> is the
  text of a tight list item, which is rendered without the paragraph method.
\<close>

datatype inline =
    Raw string
  | Span string "inline list" string
  | Link string "inline list"
  | Codespan string

datatype block =
    Html string
  | Wrap string "block list" string
  | Inline "inline list"
  | Heading "inline list" nat
  | Paragraph "inline list"
  | Hr
  | Code string
  | Blockquote "block list"
  | Listitem "block list"


section \<open>The document tree\<close>

text \<open>
  The DOM that \<^verbatim>\<open>parseFull\<close> works on: elements with their tag name (in lower case, as
  the HTML parser stores it), their attributes in order and their child nodes; text
  nodes; other nodes (comments). A node of the tree under \<^verbatim>\<open>doc.body\<close> is addressed
  by its path, the child indices from the body down: the loops of the source hold
  references to nodes, and nothing they do moves a node they still have to visit.
\<close>

datatype node = Element string "(string \<times> string) list" "node list" | TextNode string | Other string


section \<open>The collaborators\<close>

text \<open>
  The libraries that the renderer and \<^verbatim>\<open>parseFull\<close> call, as parameters: the templating
  engine without and with the \<^verbatim>\<open>filename\<close> option, the YAML parser (the own properties
  of the value it returns, \<open>None\<close> when it throws), the emoji resolver, the decoder of
  HTML entities; the Markdown lexer with the \<^verbatim>\<open>html\<close> rule of \<^verbatim>\<open>parseFull\<close> and with its
  default rules; the HTML parser for a document (it returns the body) and for the
  \<^verbatim>\<open>innerHTML\<close> of an element with a given tag, the two serializers and the minifier.
  \<^verbatim>\<open>renderer.codespan\<close> touches no module variable and is outside the properties proved
  here; it is a parameter as well (\<open>None\<close> when the conversion throws).
\<close>

record env =
  e_pug :: pug
  e_pugFile :: "string \<Rightarrow> pug"
  e_yaml :: "string \<Rightarrow> obj option"
  e_emojify :: emojify
  e_decode :: "string \<Rightarrow> string"
  e_codespan :: "string \<Rightarrow> string option"
  e_lex :: "string \<Rightarrow> block list"
  e_lexDefault :: "string \<Rightarrow> block list"
  e_jsdom :: "string \<Rightarrow> node"
  e_fragment :: "string \<Rightarrow> string \<Rightarrow> node list"
  e_innerHTML :: "node \<Rightarrow> string"
  e_outerHTML :: "node \<Rightarrow> string"
  e_minify :: "string \<Rightarrow> string"


section \<open>The renderer\<close>

definition isSpace :: "char \<Rightarrow> bool" where
  "isSpace c = (c \<in> {CHR 0x20, CHR 0x09, CHR 0x0A, CHR 0x0B, CHR 0x0C, CHR 0x0D, CHR 0xA0})"

text \<open>\<^verbatim>\<open>s.trim()\<close>.\<close>

definition trim :: "string \<Rightarrow> string" where
  "trim s = rev (dropWhile isSpace (rev (dropWhile isSpace s)))"

text \<open>\<^verbatim>\<open>renderer.link(href, title, text)\<close>.\<close>

definition link :: "env \<Rightarrow> string \<Rightarrow> string \<Rightarrow> state \<Rightarrow> string \<times> state" where
  \<open>link E href text s =
     (if startsWith href ''gloss:'' then
        (let ident = drop 6 href
         in (''<x-gloss xid="'' @ ident @ ''">'' @ text @ ''</x-gloss>'',
             s\<lparr>gloss := add ident (gloss s)\<rparr>))
      else if startsWith href ''bio:'' then
        (let ident = drop 4 href
         in (''<x-bio xid="'' @ ident @ ''">'' @ text @ ''</x-bio>'',
             s\<lparr>bios := add ident (bios s)\<rparr>))
      else if startsWith href ''target:'' then
        (let ident = drop 7 href
         in (''<span class="step-target" data-to="'' @ ident @ ''">'' @ text @ ''</span>'', s))
      else
        (let href1 = e_decode E href
         in if startsWith href1 ''->''
            then (''<x-target to="'' @ trim (drop 2 href1) @ ''">'' @ text @ ''</x-target>'', s)
            else (''<a href="'' @ href @ ''" target="_blank">'' @ text @ ''</a>'', s)))\<close>

text \<open>\<^verbatim>\<open>renderer.heading(text, level)\<close>.\<close>

definition heading :: "string \<Rightarrow> nat \<Rightarrow> state \<Rightarrow> string \<times> state" where
  "heading text level s =
     (if level = 1
      then ('''', s\<lparr>data := (data s)\<lparr>props := setProp ''title'' (Str text) (props (data s))\<rparr>\<rparr>)
      else (''<h'' @ showNat level @ ''>'' @ text @ ''</h'' @ showNat level @ ''>'', s))"

text \<open>
  \<^verbatim>\<open>renderer.blockquote(quote)\<close>. \<^verbatim>\<open>originalP || quote\<close> is the cached paragraph unless it
  is \<^verbatim>\<open>null\<close> or empty.
\<close>

definition blockquote :: "env \<Rightarrow> string \<Rightarrow> state \<Rightarrow> error + string \<times> state" where
  "blockquote E quote s =
     (let source = (case originalP s of None \<Rightarrow> quote | Some p \<Rightarrow> if p = [] then quote else p)
      in case e_yaml E source of
           None \<Rightarrow> Inl MetadataParseError
         | Some documentData \<Rightarrow> Inr ('''', assignCurrent s documentData))"

text \<open>\<^verbatim>\<open>renderer.hr()\<close>. \<^verbatim>\<open>push\<close> needs the array.\<close>

definition hr :: "state \<Rightarrow> error + string \<times> state" where
  "hr s =
     (let previous = currentStep s in
      case steps (data s) of
        Overwritten v \<Rightarrow> Inl TypeError
      | Steps ss \<Rightarrow>
          Inr (if previous \<noteq> None then ''</x-step><x-step>'' else ''<x-step>'',
               s\<lparr>currentStep := Some (length ss), data := (data s)\<lparr>steps := Steps (ss @ [[]])\<rparr>\<rparr>))"

text \<open>\<^verbatim>\<open>renderer.code(code)\<close>. \<^verbatim>\<open>currentDirectory\<close> is \<^verbatim>\<open>null\<close> before the first call.\<close>

definition code :: "env \<Rightarrow> string \<Rightarrow> state \<Rightarrow> error + string \<times> state" where
  "code E c s =
     (if currentStep s = None then Inr ('''', s\<lparr>globalPug := globalPug s @ c @ ''\<newline>\<newline>''\<rparr>)
      else case e_pugFile E ((case currentDirectory s of None \<Rightarrow> ''null'' | Some d \<Rightarrow> d) @ ''/content.pug'')
                  (globalPug s @ c) of
             None \<Rightarrow> Inl TemplateRenderError
           | Some h \<Rightarrow> Inr (h, s))"

text \<open>\<^verbatim>\<open>renderer.listitem(text)\<close>.\<close>

definition listitem :: "env \<Rightarrow> string \<Rightarrow> state \<Rightarrow> string \<times> state" where
  "listitem E text s = (''<li>'' @ parseParagraph (e_emojify E) text @ ''</li>'', s)"

text \<open>\<^verbatim>\<open>renderer.paragraph(text)\<close> (\<open>paragraph\<close> is a keyword of the theory language).\<close>

definition paragraph_r :: "env \<Rightarrow> string \<Rightarrow> state \<Rightarrow> string \<times> state" where
  "paragraph_r E text s =
     (''<p>'' @ parseParagraph (e_emojify E) text @ ''</p>'', s\<lparr>originalP := Some text\<rparr>)"


section \<open>The Markdown parser and the renderer methods\<close>

text \<open>
  \<^verbatim>\<open>marked.Parser.parse(tokens, {renderer})\<close> on the token tree: the module variables
  are threaded through the renderer methods in the order of the calls.
\<close>

fun inlineOut :: "env \<Rightarrow> inline \<Rightarrow> state \<Rightarrow> error + string \<times> state"
  and inlinesOut :: "env \<Rightarrow> inline list \<Rightarrow> state \<Rightarrow> error + string \<times> state" where
  "inlineOut E (Raw t) s = Inr (t, s)"
| "inlineOut E (Span a xs b) s =
     (case inlinesOut E xs s of Inl e \<Rightarrow> Inl e | Inr (t, s') \<Rightarrow> Inr (a @ t @ b, s'))"
| "inlineOut E (Link href xs) s =
     (case inlinesOut E xs s of Inl e \<Rightarrow> Inl e | Inr (t, s') \<Rightarrow> Inr (link E href t s'))"
| "inlineOut E (Codespan c) s =
     (case e_codespan E c of None \<Rightarrow> Inl MathConversionError | Some t \<Rightarrow> Inr (t, s))"
| "inlinesOut E [] s = Inr ('''', s)"
| "inlinesOut E (x # xs) s =
     (case inlineOut E x s of
        Inl e \<Rightarrow> Inl e
      | Inr (t, s') \<Rightarrow>
          (case inlinesOut E xs s' of Inl e \<Rightarrow> Inl e | Inr (u, s'') \<Rightarrow> Inr (t @ u, s'')))"

fun tok :: "env \<Rightarrow> block \<Rightarrow> state \<Rightarrow> error + string \<times> state"
  and parse :: "env \<Rightarrow> block list \<Rightarrow> state \<Rightarrow> error + string \<times> state" where
  "tok E (Html t) s = Inr (t, s)"
| "tok E (Wrap a bs b) s =
     (case parse E bs s of Inl e \<Rightarrow> Inl e | Inr (t, s') \<Rightarrow> Inr (a @ t @ b, s'))"
| "tok E (Inline xs) s = inlinesOut E xs s"
| "tok E (Heading xs level) s =
     (case inlinesOut E xs s of Inl e \<Rightarrow> Inl e | Inr (t, s') \<Rightarrow> Inr (heading t level s'))"
| "tok E (Paragraph xs) s =
     (case inlinesOut E xs s of Inl e \<Rightarrow> Inl e | Inr (t, s') \<Rightarrow> Inr (paragraph_r E t s'))"
| "tok E Hr s = hr s"
| "tok E (Code c) s = code E c s"
| "tok E (Blockquote bs) s =
     (case parse E bs s of Inl e \<Rightarrow> Inl e | Inr (t, s') \<Rightarrow> blockquote E t s')"
| "tok E (Listitem bs) s =
     (case parse E bs s of Inl e \<Rightarrow> Inl e | Inr (t, s') \<Rightarrow> Inr (listitem E t s'))"
| "parse E [] s = Inr ('''', s)"
| "parse E (b # bs) s =
     (case tok E b s of
        Inl e \<Rightarrow> Inl e
      | Inr (t, s') \<Rightarrow>
          (case parse E bs s' of Inl e \<Rightarrow> Inl e | Inr (u, s'') \<Rightarrow> Inr (t @ u, s'')))"


section \<open>\<^verbatim>\<open>parseFull\<close>: the reset and the rendering\<close>

text \<open>
  The assignments at the head of \<^verbatim>\<open>parseFull(id, content, path)\<close>. \<^verbatim>\<open>originalP\<close> is not
  among them.
\<close>

definition reset :: "string \<Rightarrow> state \<Rightarrow> state" where
  "reset path s =
     s\<lparr>bios := [], gloss := [], data := \<lparr>props = [], steps = Steps []\<rparr>,
       currentStep := None, currentDirectory := Some path, globalPug := ''''\<rparr>"


section \<open>Operations on the document tree\<close>

type_synonym path = "nat list"

definition child :: "nat \<Rightarrow> node \<Rightarrow> node option" where
  "child i n = (case n of Element t a cs \<Rightarrow> nth_js cs i | _ \<Rightarrow> None)"

primrec getNode :: "path \<Rightarrow> node \<Rightarrow> node option" where
  "getNode [] n = Some n"
| "getNode (i # p) n = (case child i n of None \<Rightarrow> None | Some c \<Rightarrow> getNode p c)"

definition onChild :: "nat \<Rightarrow> (node \<Rightarrow> node) \<Rightarrow> node \<Rightarrow> node" where
  "onChild i f n =
     (case n of
        Element t a cs \<Rightarrow> Element t a (if i < length cs then cs[i := f (cs ! i)] else cs)
      | _ \<Rightarrow> n)"

primrec updateAt :: "path \<Rightarrow> (node \<Rightarrow> node) \<Rightarrow> node \<Rightarrow> node" where
  "updateAt [] f = f"
| "updateAt (i # p) f = onChild i (updateAt p f)"

text \<open>A change of the attributes of an element; other nodes have none.\<close>

definition onAttrs :: "((string \<times> string) list \<Rightarrow> (string \<times> string) list) \<Rightarrow> node \<Rightarrow> node" where
  "onAttrs g n = (case n of Element t a cs \<Rightarrow> Element t (g a) cs | _ \<Rightarrow> n)"

definition editAttrs :: "path \<Rightarrow> ((string \<times> string) list \<Rightarrow> (string \<times> string) list) \<Rightarrow> node \<Rightarrow> node" where
  "editAttrs p g = updateAt p (onAttrs g)"

definition attrsAt :: "node \<Rightarrow> path \<Rightarrow> (string \<times> string) list option" where
  "attrsAt b p = (case getNode p b of Some (Element t a cs) \<Rightarrow> Some a | _ \<Rightarrow> None)"

definition isElement :: "node \<Rightarrow> bool" where
  "isElement n = (case n of Element t a cs \<Rightarrow> True | _ \<Rightarrow> False)"

text \<open>
  The elements below a node in document order, as \<^verbatim>\<open>querySelectorAll\<close> lists them, and in
  the order of \<^verbatim>\<open>nodes(element)\<close> of the source: the elements below a child, then the
  child.
\<close>

fun elems :: "node \<Rightarrow> path list"
  and elemsFrom :: "nat \<Rightarrow> node list \<Rightarrow> path list" where
  "elems (Element t a cs) = elemsFrom 0 cs"
| "elems (TextNode x) = []"
| "elems (Other x) = []"
| "elemsFrom i [] = []"
| "elemsFrom i (c # cs) =
     (if isElement c then [[i]] else []) @ map ((#) i) (elems c) @ elemsFrom (Suc i) cs"

fun nodes :: "node \<Rightarrow> path list"
  and nodesFrom :: "nat \<Rightarrow> node list \<Rightarrow> path list" where
  "nodes (Element t a cs) = nodesFrom 0 cs"
| "nodes (TextNode x) = []"
| "nodes (Other x) = []"
| "nodesFrom i [] = []"
| "nodesFrom i (c # cs) =
     (if isElement c then map ((#) i) (nodes c) @ [[i]] else []) @ nodesFrom (Suc i) cs"

text \<open>\<^verbatim>\<open>setAttribute\<close>, \<^verbatim>\<open>removeAttribute\<close> and \<^verbatim>\<open>getAttribute\<close> on the attribute list.\<close>

fun setAttribute :: "string \<Rightarrow> string \<Rightarrow> (string \<times> string) list \<Rightarrow> (string \<times> string) list" where
  "setAttribute k v [] = [(k, v)]"
| "setAttribute k v ((k', v') # ps) =
     (if k' = k then (k, v) # ps else (k', v') # setAttribute k v ps)"

definition removeAttribute :: "string \<Rightarrow> (string \<times> string) list \<Rightarrow> (string \<times> string) list" where
  "removeAttribute k a = filter (\<lambda>(k', v). k' \<noteq> k) a"

definition getAttribute :: "(string \<times> string) list \<Rightarrow> string \<Rightarrow> string option" where
  "getAttribute a k = map_of a k"

text \<open>
  \<^verbatim>\<open>classList\<close>: the tokens of the \<^verbatim>\<open>class\<close> attribute, split at ASCII whitespace, without
  repetition. \<^verbatim>\<open>add\<close> and \<^verbatim>\<open>remove\<close> throw on an empty token and on a token with
  whitespace before they change anything; then they write the token set back, joined by
  single blanks.
\<close>

definition isAsciiSpace :: "char \<Rightarrow> bool" where
  "isAsciiSpace c = (c \<in> {CHR 0x20, CHR 0x09, CHR 0x0A, CHR 0x0C, CHR 0x0D})"

function words_js :: "string \<Rightarrow> string list" where
  "words_js s =
     (let r = dropWhile isAsciiSpace s
      in if r = [] then []
         else takeWhile (\<lambda>c. \<not> isAsciiSpace c) r # words_js (dropWhile (\<lambda>c. \<not> isAsciiSpace c) r))"
  by pat_completeness auto
termination
proof (relation "measure length")
  fix s r
  assume r: "r = dropWhile isAsciiSpace s" and ne: "r \<noteq> []"
  then have "\<not> isAsciiSpace (hd r)" using hd_dropWhile[of isAsciiSpace s] by simp
  then have "dropWhile (\<lambda>c. \<not> isAsciiSpace c) r = dropWhile (\<lambda>c. \<not> isAsciiSpace c) (tl r)"
    using ne by (cases r) auto
  moreover have "length (dropWhile (\<lambda>c. \<not> isAsciiSpace c) (tl r)) \<le> length (tl r)"
    by (rule length_dropWhile_le)
  moreover have "length r \<le> length s" unfolding r by (rule length_dropWhile_le)
  ultimately show "(dropWhile (\<lambda>c. \<not> isAsciiSpace c) r, s) \<in> measure length"
    using ne by (cases r) auto
qed simp

definition classTokens :: "(string \<times> string) list \<Rightarrow> string list" where
  "classTokens a =
     (case getAttribute a ''class'' of None \<Rightarrow> [] | Some v \<Rightarrow> rev (remdups (rev (words_js v))))"

definition badToken :: "string \<Rightarrow> bool" where
  "badToken c = (c = [] \<or> (\<exists>x \<in> set c. isAsciiSpace x))"

definition classAdd :: "string list \<Rightarrow> (string \<times> string) list \<Rightarrow> (string \<times> string) list" where
  "classAdd cs a = setAttribute ''class'' (joinStr '' '' (fold add cs (classTokens a))) a"

definition classRemove :: "string \<Rightarrow> (string \<times> string) list \<Rightarrow> (string \<times> string) list" where
  "classRemove c a = setAttribute ''class'' (joinStr '' '' (filter (\<lambda>x. x \<noteq> c) (classTokens a))) a"


section \<open>\<^verbatim>\<open>parseFull\<close>: the passes over the tree\<close>

text \<open>
  \<^verbatim>\<open>blockAttributes(node)\<close> for the element at path \<open>p\<close>. \<^verbatim>\<open>/^\{([^\}]+)\}/\<close> on the text of
  the first child gives the group and the text without the match.
\<close>

definition matchBrace :: "string \<Rightarrow> (string \<times> string) option" where
  "matchBrace s =
     (if startsWith s ''{'' then
        (let inner = takeWhile (isnt CHR ''}'') (drop 1 s);
             r = dropWhile (isnt CHR ''}'') (drop 1 s)
         in if inner \<noteq> [] \<and> startsWith r ''}'' then Some (inner, drop 1 r) else None)
      else None)"

definition blockAttributes :: "env \<Rightarrow> node \<Rightarrow> path \<Rightarrow> error + node" where
  "blockAttributes E b p =
     (case getNode p b of
        Some (Element t a (TextNode txt # rest)) \<Rightarrow>
          (case matchBrace txt of
             None \<Rightarrow> Inr b
           | Some (inner, txt') \<Rightarrow>
               (case e_pug E inner of
                  None \<Rightarrow> Inl TemplateRenderError
                | Some h \<Rightarrow>
                    (case filter isElement (e_fragment E ''div'' h) of
                       Element rt ra rcs # others \<Rightarrow>
                         if rt = ''div''
                         then Inr (updateAt p
                                (\<lambda>n. Element t (fold (\<lambda>(k, v). setAttribute k v) ra a) (TextNode txt' # rest)) b)
                         else Inr (updateAt p (\<lambda>n. Element rt ra (rcs @ TextNode txt' # rest)) b)
                     | _ \<Rightarrow> Inl TypeError)))
      | _ \<Rightarrow> Inr b)"

fun attributesLoop :: "env \<Rightarrow> node \<Rightarrow> path list \<Rightarrow> error + node" where
  "attributesLoop E b [] = Inr b"
| "attributesLoop E b (p # ps) =
     (case blockAttributes E b p of Inl e \<Rightarrow> Inl e | Inr b' \<Rightarrow> attributesLoop E b' ps)"

text \<open>
  The elements with class \<^verbatim>\<open>md\<close>. \<^verbatim>\<open>.replace(/^<p>|<\/p>$/g, '')\<close> takes \<^verbatim>\<open><p>\<close> from the
  start and \<^verbatim>\<open></p>\<close> from the end. An element of the list that lies inside an earlier
  one has left the tree when its turn comes (the earlier one got new children): the
  Markdown engine still runs on it, on the module variables, and the tree stays as it is.
\<close>

definition isMd :: "node \<Rightarrow> path \<Rightarrow> bool" where
  "isMd b p = (case attrsAt b p of Some a \<Rightarrow> ''md'' \<in> set (classTokens a) | None \<Rightarrow> False)"

definition endsWith :: "string \<Rightarrow> string \<Rightarrow> bool" where
  "endsWith s p = (length p \<le> length s \<and> drop (length s - length p) s = p)"

definition stripP :: "string \<Rightarrow> string" where
  "stripP s =
     (let s1 = (if startsWith s ''<p>'' then drop 3 s else s)
      in if endsWith s1 ''</p>'' then take (length s1 - 4) s1 else s1)"

definition inside :: "path \<Rightarrow> path \<Rightarrow> bool" where
  "inside q p = (length q < length p \<and> take (length q) p = q)"

fun mdLoop :: "env \<Rightarrow> node \<Rightarrow> path list \<Rightarrow> path list \<Rightarrow> node \<times> state \<Rightarrow> error + node \<times> state" where
  "mdLoop E b0 visited [] (b, s) = Inr (b, s)"
| "mdLoop E b0 visited (p # ps) (b, s) =
     (case getNode p b0 of
        Some (Element t a cs) \<Rightarrow>
          (case parse E (e_lexDefault E (e_innerHTML E (Element t a cs))) s of
             Inl e \<Rightarrow> Inl e
           | Inr (out, s') \<Rightarrow>
               mdLoop E b0 (visited @ [p]) ps
                 (if \<exists>q \<in> set visited. inside q p then b
                  else updateAt p
                         (\<lambda>n. case n of
                                 Element t' a' cs' \<Rightarrow>
                                   Element t' (classRemove ''md'' a') (e_fragment E t' (stripP out))
                               | _ \<Rightarrow> n) b,
                  s'))
      | _ \<Rightarrow> Inl TypeError)"

text \<open>
  The elements with a \<^verbatim>\<open>parent\<close> attribute: the attribute is taken off the element, its
  value, split at blanks, goes to the class list of the parent node.
\<close>

definition hasParent :: "node \<Rightarrow> path \<Rightarrow> bool" where
  "hasParent b p = (case attrsAt b p of Some a \<Rightarrow> getAttribute a ''parent'' \<noteq> None | None \<Rightarrow> False)"

definition parentStep :: "node \<Rightarrow> path \<Rightarrow> error + node" where
  "parentStep b p =
     (case attrsAt b p of
        None \<Rightarrow> Inl TypeError
      | Some a \<Rightarrow>
          (case getAttribute a ''parent'' of
             None \<Rightarrow> Inl TypeError
           | Some v \<Rightarrow>
               (let classes = splitStr '' '' v;
                    b1 = editAttrs p (removeAttribute ''parent'') b
                in if \<exists>c \<in> set classes. badToken c then Inl DOMException
                   else Inr (editAttrs (butlast p) (classAdd classes) b1))))"

fun parentLoop :: "node \<Rightarrow> path list \<Rightarrow> error + node" where
  "parentLoop b [] = Inr b"
| "parentLoop b (p # ps) =
     (case parentStep b p of Inl e \<Rightarrow> Inl e | Inr b' \<Rightarrow> parentLoop b' ps)"

definition parentPass :: "node \<Rightarrow> error + node" where
  "parentPass b = parentLoop b (filter (hasParent b) (elems b))"

text \<open>
  The step elements, paired by position with \<^verbatim>\<open>data.steps\<close>. Reading \<^verbatim>\<open>d.id\<close> throws when
  \<^verbatim>\<open>data.steps[i]\<close> is \<^verbatim>\<open>undefined\<close>. When front matter has put a string in the place of
  the array, \<^verbatim>\<open>data.steps[i]\<close> is a character of it: it has no properties and keeps none,
  and the element gets the id \<^verbatim>\<open>undefined\<close>.
\<close>

definition isStep :: "node \<Rightarrow> path \<Rightarrow> bool" where
  "isStep b p = (case getNode p b of Some (Element t a cs) \<Rightarrow> t = ''x-step'' | _ \<Rightarrow> False)"

definition stepAttrs :: "obj \<Rightarrow> (string \<times> string) list \<Rightarrow> (string \<times> string) list" where
  "stepAttrs d a =
     (let a1 = setAttribute ''id'' (toStr (getProp d ''id'')) a;
          a2 = (if truthy (getProp d ''goals'')
                then setAttribute ''goals'' (toStr (getProp d ''goals'')) a1 else a1)
      in if truthy (getProp d ''class'')
         then setAttribute ''class'' (toStr (getProp d ''class'')) a2 else a2)"

definition stepAt :: "nat \<Rightarrow> path \<Rightarrow> stepsval \<times> node \<Rightarrow> error + stepsval \<times> node" where
  "stepAt i p x =
     (case x of (sv, b) \<Rightarrow>
       (case sv of
          Steps ss \<Rightarrow>
            (case nth_js ss i of
               None \<Rightarrow> Inl TypeError
             | Some d0 \<Rightarrow>
                 (let d = (if \<not> truthy (getProp d0 ''id'')
                           then setProp ''id'' (Str (''step-'' @ showNat i)) d0 else d0)
                  in Inr (Steps (ss[i := d]), editAttrs p (stepAttrs d) b)))
        | Overwritten v \<Rightarrow>
            (case v of
               Str x \<Rightarrow>
                 if i < length x
                 then Inr (sv, editAttrs p (setAttribute ''id'' ''undefined'') b)
                 else Inl TypeError
             | _ \<Rightarrow> Inl TypeError)))"

fun stepLoop :: "nat \<Rightarrow> path list \<Rightarrow> stepsval \<times> node \<Rightarrow> error + stepsval \<times> node" where
  "stepLoop i [] x = Inr x"
| "stepLoop i (p # ps) x =
     (case stepAt i p x of Inl e \<Rightarrow> Inl e | Inr x' \<Rightarrow> stepLoop (Suc i) ps x')"

definition stepPass :: "document \<Rightarrow> node \<Rightarrow> error + document \<times> node" where
  "stepPass d b =
     (case stepLoop 0 (filter (isStep b) (elems b)) (steps d, b) of
        Inl e \<Rightarrow> Inl e
      | Inr (sv, b') \<Rightarrow> Inr (d\<lparr>steps := sv\<rparr>, b'))"


section \<open>\<^verbatim>\<open>parseFull\<close>\<close>

text \<open>
  The result of \<^verbatim>\<open>parseFull\<close>. \<open>res_steps\<close> is the object \<^verbatim>\<open>steps\<close>, from the id of a step
  element to its minified HTML (a later element with the same id replaces the entry).
\<close>

record result =
  res_html :: string
  res_bios :: "string list"
  res_gloss :: "string list"
  res_data :: document
  res_steps :: "(string \<times> string) list"

definition stepsHTML :: "env \<Rightarrow> node \<Rightarrow> (string \<times> string) list" where
  "stepsHTML E b =
     fold (\<lambda>p m. case getNode p b of
                    Some (Element t a cs) \<Rightarrow>
                      setAttribute (case getAttribute a ''id'' of None \<Rightarrow> '''' | Some v \<Rightarrow> v)
                        (e_minify E (e_outerHTML E (Element t a cs))) m
                  | _ \<Rightarrow> m)
       (filter (isStep b) (elems b)) []"

text \<open>
  \<^verbatim>\<open>parseFull\<close> up to the tree it serializes: the module variables at the end and the
  body of the document after the passes.
\<close>

definition parseTree :: "env \<Rightarrow> string \<Rightarrow> string \<Rightarrow> string \<Rightarrow> state \<Rightarrow> error + node \<times> state" where
  "parseTree E ident content path s0 =
     (let s = reset path s0 in
      case blockIndentation (e_pug E) (preprocess ident content) of
        Inl e \<Rightarrow> Inl e
      | Inr content' \<Rightarrow>
      case parse E (e_lex E content') s of
        Inl e \<Rightarrow> Inl e
      | Inr (parsed, s1) \<Rightarrow>
      let body = e_jsdom E (parsed @ ''</x-step>'') in
      case attributesLoop E body (nodes body) of
        Inl e \<Rightarrow> Inl e
      | Inr b1 \<Rightarrow>
      case mdLoop E b1 [] (filter (isMd b1) (elems b1)) (b1, s1) of
        Inl e \<Rightarrow> Inl e
      | Inr (b2, s2) \<Rightarrow>
      case parentPass b2 of
        Inl e \<Rightarrow> Inl e
      | Inr b3 \<Rightarrow>
      case stepPass (data s2) b3 of
        Inl e \<Rightarrow> Inl e
      | Inr (d, b4) \<Rightarrow> Inr (b4, s2\<lparr>data := d\<rparr>))"

definition parseFull :: "env \<Rightarrow> string \<Rightarrow> string \<Rightarrow> string \<Rightarrow> state \<Rightarrow> error + result \<times> state" where
  "parseFull E ident content path s0 =
     (case parseTree E ident content path s0 of
        Inl e \<Rightarrow> Inl e
      | Inr (b, s) \<Rightarrow>
          Inr (\<lparr>res_html = e_minify E (e_innerHTML E b), res_bios = bios s, res_gloss = gloss s,
                res_data = data s, res_steps = stepsHTML E b\<rparr>, s))"


section \<open>Collaborators for concrete documents\<close>

text \<open>
  Modelled from the spec: the structured metadata parser (yamljs, not under \<^verbatim>\<open>src/\<close>),
  which "accepts a text block, returns a key/value mapping". This instance covers blocks
  whose lines each are \<^verbatim>\<open>key: value\<close>; the value is a number when it is made of digits
  and a string otherwise. Every other block is answered \<open>None\<close>.
\<close>

function beforeSep :: "string \<Rightarrow> string \<Rightarrow> string option" where
  "beforeSep sep [] = None"
| "beforeSep sep (c # cs) =
     (if startsWith (c # cs) sep then Some []
      else (case beforeSep sep cs of None \<Rightarrow> None | Some k \<Rightarrow> Some (c # k)))"
  by pat_completeness auto
termination
  by (relation "measure (\<lambda>(sep, s). length s)") auto

fun digitsVal :: "string \<Rightarrow> nat \<Rightarrow> nat" where
  "digitsVal [] acc = acc"
| "digitsVal (c # cs) acc = digitsVal cs (10 * acc + (of_char c - 48))"

definition yamlLine :: "string \<Rightarrow> (string \<times> jsval) option" where
  "yamlLine l =
     (case beforeSep '': '' l of
        None \<Rightarrow> None
      | Some k \<Rightarrow>
          (let v = drop (length k + 2) l
           in if k = [] \<or> v = [] then None
              else Some (k, if list_all isDigit v then Num (int (digitsVal v 0)) else Str v)))"

definition yaml_model :: "string \<Rightarrow> obj option" where
  "yaml_model t =
     (let ls = map yamlLine (splitStr ''\<newline>'' t)
      in if list_all (\<lambda>x. x \<noteq> None) ls
         then Some (fold (\<lambda>x ob. case x of Some (k, v) \<Rightarrow> setProp k v ob | None \<Rightarrow> ob) ls [])
         else None)"

text \<open>
  Modelled from the spec: the HTML serializer of the tree builder (jsdom, not under
  \<^verbatim>\<open>src/\<close>). This instance writes a tree whose texts and attribute values need no
  escaping and whose elements are not void elements.
\<close>

fun outer_model :: "node \<Rightarrow> string"
  and outers_model :: "node list \<Rightarrow> string" where
  \<open>outer_model (Element t a cs) =
     ''<'' @ t @ concat (map (\<lambda>(k, v). '' '' @ k @ ''="'' @ v @ ''"'') a) @ ''>''
       @ outers_model cs @ ''</'' @ t @ ''>''\<close>
| "outer_model (TextNode x) = x"
| "outer_model (Other x) = ''<!--'' @ x @ ''-->''"
| "outers_model [] = []"
| "outers_model (c # cs) = outer_model c @ outers_model cs"

definition inner_model :: "node \<Rightarrow> string" where
  "inner_model n = (case n of Element t a cs \<Rightarrow> outers_model cs | _ \<Rightarrow> [])"

text \<open>
  Modelled from the spec: the Markdown lexer, the HTML tree builder, the templating
  engine on an indented block and the minifier (marked, jsdom, pug, html-minifier, not
  under \<^verbatim>\<open>src/\<close>), on the documents of the examples below and on nothing else: each line
  of a table is what the library answers on that text. The lexer entries are the token
  trees of

  \<^item> a paragraph with two links to \<^verbatim>\<open>gloss:atom\<close> and one to \<^verbatim>\<open>bio:bohr\<close>;
  \<^item> the single heading \<^verbatim>\<open># Intro\<close>;
  \<^item> a block quote that holds a horizontal rule and a line of front matter;
  \<^item> a block quote that holds a heading;
  \<^item> a paragraph;
  \<^item> a horizontal rule, front matter, an indented template, a second horizontal rule
    and a paragraph.

  The tree builder drops an end tag that closes nothing; the minifier has nothing to
  take from these texts.
\<close>

definition lex_examples :: "string \<Rightarrow> block list" where
  \<open>lex_examples content =
     (if content = ''[a](gloss:atom) [b](gloss:atom) [c](bio:bohr)'' then
        [Paragraph [Link ''gloss:atom'' [Raw ''a''], Raw '' '', Link ''gloss:atom'' [Raw ''b''],
                    Raw '' '', Link ''bio:bohr'' [Raw ''c'']]]
      else if content = ''# Intro'' then [Heading [Raw ''Intro''] 1]
      else if content = ''> ---\<newline>>\<newline>> id: a'' then [Blockquote [Hr, Paragraph [Raw ''id: a'']]]
      else if content = ''> ## x: y'' then [Blockquote [Heading [Raw ''x: y''] 2]]
      else if content = ''title: Stale'' then [Paragraph [Raw ''title: Stale'']]
      else if content = ''---\<newline>\<newline>> id: intro\<newline>\<newline>    p(parent="wide") hi\<newline>\<newline>---\<newline>\<newline>bye'' then
        [Hr, Blockquote [Paragraph [Raw ''id: intro'']], Code ''p(parent="wide") hi'', Hr,
         Paragraph [Raw ''bye'']]
      else [])\<close>

definition pugFile_examples :: "string \<Rightarrow> pug" where
  \<open>pugFile_examples filename template =
     (if template = ''p(parent="wide") hi'' then Some ''<p parent="wide">hi</p>'' else None)\<close>

definition jsdom_examples :: "string \<Rightarrow> node" where
  \<open>jsdom_examples html =
     (if html = ''<p><x-gloss xid="atom">a</x-gloss> <x-gloss xid="atom">b</x-gloss> <x-bio xid="bohr">c</x-bio></p></x-step>'' then
        Element ''body'' []
          [Element ''p'' []
            [Element ''x-gloss'' [(''xid'', ''atom'')] [TextNode ''a''], TextNode '' '',
             Element ''x-gloss'' [(''xid'', ''atom'')] [TextNode ''b''], TextNode '' '',
             Element ''x-bio'' [(''xid'', ''bohr'')] [TextNode ''c'']]]
      else if html = ''<p>title: Stale</p></x-step>'' then
        Element ''body'' [] [Element ''p'' [] [TextNode ''title: Stale'']]
      else if html = ''<x-step><p parent="wide">hi</p></x-step><x-step><p>bye</p></x-step>'' then
        Element ''body'' []
          [Element ''x-step'' [] [Element ''p'' [(''parent'', ''wide'')] [TextNode ''hi'']],
           Element ''x-step'' [] [Element ''p'' [] [TextNode ''bye'']]]
      else Element ''body'' [] [])\<close>

definition env_examples :: env where
  "env_examples =
     \<lparr>e_pug = pug_model, e_pugFile = pugFile_examples, e_yaml = yaml_model,
      e_emojify = emojify_model, e_decode = (\<lambda>x. x), e_codespan = (\<lambda>c. None),
      e_lex = lex_examples, e_lexDefault = (\<lambda>html. []), e_jsdom = jsdom_examples,
      e_fragment = (\<lambda>tag html. []), e_innerHTML = inner_model, e_outerHTML = outer_model,
      e_minify = (\<lambda>html. html)\<rparr>"

text \<open>The module variables when the module has been loaded and nothing compiled.\<close>

definition initial :: state where
  "initial =
     \<lparr>bios = [], gloss = [], data = \<lparr>props = [], steps = Steps []\<rparr>, currentStep = None,
      currentDirectory = None, globalPug = '''', originalP = None\<rparr>"


section \<open>Invariants\<close>

text \<open>Each of the two reference sets holds an identifier at most once.\<close>

definition sets_ok :: "state \<Rightarrow> bool" where
  "sets_ok s = (distinct (gloss s) \<and> distinct (bios s))"

text \<open>
  The value of the \<^verbatim>\<open>parent\<close> attribute and the class list of the element at a path
  (nothing when there is no element), and a token that \<^verbatim>\<open>classList.add\<close> takes.
\<close>

definition parentVal :: "node \<Rightarrow> path \<Rightarrow> string option" where
  "parentVal b p = (case attrsAt b p of Some a \<Rightarrow> getAttribute a ''parent'' | None \<Rightarrow> None)"

definition classesAt :: "node \<Rightarrow> path \<Rightarrow> string set" where
  "classesAt b p = (case attrsAt b p of Some a \<Rightarrow> set (classTokens a) | None \<Rightarrow> {})"

text \<open>
  The step elements of a tree in document order (\<^verbatim>\<open>querySelectorAll('x-step')\<close>) and the
  \<^verbatim>\<open>id\<close> attribute of the element at a path.
\<close>

definition stepElements :: "node \<Rightarrow> path list" where
  "stepElements b = filter (isStep b) (elems b)"

definition idAt :: "node \<Rightarrow> path \<Rightarrow> string option" where
  "idAt b p = (case attrsAt b p of Some a \<Rightarrow> getAttribute a ''id'' | None \<Rightarrow> None)"

section \<open>Properties of the block structure parser\<close>

lemma splitStr_nl_last: "CHR ''\<newline>'' \<notin> set l \<Longrightarrow> splitStr ''\<newline>'' l = [l]"
  by (induction l) (auto simp: startsWith_def)

lemma splitStr_nl_line:
  "CHR ''\<newline>'' \<notin> set l \<Longrightarrow>
   splitStr ''\<newline>'' (l @ CHR ''\<newline>'' # r) = l # splitStr ''\<newline>'' r"
  by (induction l) (auto simp: startsWith_def)

lemma blockLines_plain:
  "\<not> startsWith l '':::'' \<Longrightarrow>
   blockLines pug ct ns (l # ls) = consR l (blockLines pug ct ns ls)"
  by simp

lemma blockLines_close:
  "blockLines pug ct ns ('':::'' # ls) =
     consR (''\<newline>'' @ str (last_js ct) @ ''\<newline>'') (blockLines pug (butlast ct) (butlast ns) ls)"
  by (simp add: startsWith_def)


lemma blockLines_total:
  "\<forall>l \<in> set ls. startsWith l '':::'' \<and> drop 4 l \<noteq> [] \<longrightarrow> pug (templateOf (drop 4 l)) \<noteq> None
   \<Longrightarrow> \<exists>out. blockLines pug ct ns ls = Inr out"
proof (induction ls arbitrary: ct ns)
  case Nil
  then show ?case by simp
next
  case (Cons l ls)
  then have IH: "\<And>ct ns. \<exists>out. blockLines pug ct ns ls = Inr out" by simp
  show ?case
  proof (cases "startsWith l '':::'' \<and> drop 4 l \<noteq> []")
    case True
    with Cons.prems obtain h where h: "pug (templateOf (drop 4 l)) = Some h" by auto
    show ?thesis
      using True h IH[of ct ns] IH[of "ct @ [''</div></div>'']" "ns @ [''column'']"]
           IH[of "ct @ [''</div></x-tabbox>'']" "ns @ [''tab'']"]
           IH[of "ct @ [''</'' @ str (nth_js (splitStr ''</'' h) 1)]" "ns @ ['''']"]
      by (auto simp: templateOf_def consR_def Let_def)
  next
    case False
    then show ?thesis
      using IH[of ct ns] IH[of "butlast ct" "butlast ns"]
      by (auto simp: consR_def Let_def)
  qed
qed

text \<open>
  Claim C1, as stated, fails: a close marker met while no block is open does not make
  \<^verbatim>\<open>blockIndentation\<close> fail. \<^verbatim>\<open>closeTags.pop()\<close> on the empty array returns \<^verbatim>\<open>undefined\<close>,
  the line is replaced, and the function returns.
\<close>

theorem unmatched_close_returns:
  "blockIndentation pug_model '':::'' = Inr ''\<newline>undefined\<newline>''"
  by (simp add: blockIndentation_def startsWith_def last_js_def str_def consR_def)

text \<open>
  Claim C1, amended: the block structure parser signals no structure error. For every
  input, balanced or not, it returns its output whenever the templating engine renders
  the tag of each open marker; the templating engine's failure is its only failure.
\<close>

theorem blockIndentation_returns:
  assumes "\<forall>l \<in> set (splitStr ''\<newline>'' source).
             startsWith l '':::'' \<and> drop 4 l \<noteq> [] \<longrightarrow> pug (templateOf (drop 4 l)) \<noteq> None"
  shows "\<exists>out. blockIndentation pug source = Inr out"
  using blockLines_total[OF assms, of "[]" "[]"] by (auto simp: blockIndentation_def)

theorem blockIndentation_returns_witness:
  "\<exists>out. blockIndentation pug_model ''::: .box\<newline>A\<newline>:::\<newline>:::'' = Inr out"
  by (rule blockIndentation_returns) code_simp

text \<open>
  Claim C5, as stated, fails: a bare \<^verbatim>\<open>:::\<close> never opens a column. In the input of the
  claim the second \<^verbatim>\<open>:::\<close> closes the row after one column and the third finds nothing
  open. (The first equation is the claim's own spelling, where the templating engine
  takes \<^verbatim>\<open>width=200\<close> after the blank as text; the second spells the attribute in
  parentheses.)
\<close>

theorem bare_marker_opens_no_column:
  \<open>blockIndentation pug_model ''::: column width=200\<newline>A\<newline>:::\<newline>B\<newline>:::''
     = Inr ''<div class="row padded"><div>width=200\<newline>\<newline>A\<newline>\<newline></div></div>\<newline>\<newline>B\<newline>\<newline>undefined\<newline>''
   \<and> blockIndentation pug_model ''::: column(width=200)\<newline>A\<newline>:::\<newline>B\<newline>:::''
     = Inr ''<div class="row padded"><div style="width: 200px">\<newline>\<newline>A\<newline>\<newline></div></div>\<newline>\<newline>B\<newline>\<newline>undefined\<newline>''\<close>
  by code_simp

lemma column_open:
  \<open>replaceWidth (str (nth_js (splitStr ''</'' ''<div width="200"></div>'') 0))
     = ''<div style="width: 200px">''\<close>
  by (simp add: startsWith_def nth_js_def str_def matchWidth_def isDigit_def)

text \<open>
  Claim C5, amended: two column markers whose tag the templating engine renders as
  \<^verbatim>\<open><div width="200"></div>\<close>, each followed by a content line, and one final \<^verbatim>\<open>:::\<close>
  give one row container around two column divs, each with the inline style
  \<^verbatim>\<open>width: 200px\<close>, and one closing pair \<^verbatim>\<open></div></div>\<close>: three tags opened, three closed.
  The second column is opened by a second column marker, not by a bare \<^verbatim>\<open>:::\<close>.
\<close>

theorem two_columns_one_row:
  assumes pug: \<open>pug (''div'' @ a) = Some ''<div width="200"></div>''\<close>
    and a: "CHR ''\<newline>'' \<notin> set a"
    and c1: "CHR ''\<newline>'' \<notin> set c1" "\<not> startsWith c1 '':::''"
    and c2: "CHR ''\<newline>'' \<notin> set c2" "\<not> startsWith c2 '':::''"
  shows \<open>blockIndentation pug
            (''::: column'' @ a @ ''\<newline>'' @ c1 @ ''\<newline>'' @ ''::: column'' @ a @ ''\<newline>'' @ c2 @ ''\<newline>'' @ '':::'')
         = Inr (''<div class="row padded"><div style="width: 200px">\<newline>\<newline>'' @ c1
                @ ''\<newline>\<newline></div><div style="width: 200px">\<newline>\<newline>'' @ c2
                @ ''\<newline>\<newline></div></div>\<newline>'')\<close>
proof -
  define L where "L = ''::: column'' @ a"
  define col where \<open>col = ''<div style="width: 200px">''\<close>
  have l1: "CHR ''\<newline>'' \<notin> set L" using a by (simp add: L_def)
  have sp: "splitStr ''\<newline>'' (L @ ''\<newline>'' @ c1 @ ''\<newline>'' @ L @ ''\<newline>'' @ c2 @ ''\<newline>'' @ '':::'')
      = [L, c1, L, c2, '':::'']"
    using splitStr_nl_line[OF l1] splitStr_nl_line[OF c1(1)] splitStr_nl_line[OF c2(1)]
      splitStr_nl_last[of "'':::''"]
    by simp
  have stepL: "blockLines pug ct ns (L # ls) =
      (if last_js ns = Some ''column''
       then consR (''\<newline></div>'' @ col @ ''\<newline>'') (blockLines pug ct ns ls)
       else consR (''<div class=\"row padded\">'' @ col @ ''\<newline>'')
              (blockLines pug (ct @ [''</div></div>'']) (ns @ [''column'']) ls))" for ct ns ls
    using pug column_open by (simp add: L_def col_def startsWith_def)
  have "blockLines pug [] [] [L, c1, L, c2, '':::'']
      = Inr [''<div class=\"row padded\">'' @ col @ ''\<newline>'', c1, ''\<newline></div>'' @ col @ ''\<newline>'', c2,
             ''\<newline></div></div>\<newline>'']"
    by (simp add: stepL blockLines_plain[OF c1(2)] blockLines_plain[OF c2(2)] blockLines_close
        last_js_def consR_def str_def del: blockLines.simps(2))
  then show ?thesis
    unfolding blockIndentation_def using sp by (simp add: L_def col_def)
qed

theorem two_columns_one_row_witness:
  \<open>blockIndentation pug_model
      (''::: column'' @ ''(width=200)'' @ ''\<newline>'' @ ''A'' @ ''\<newline>'' @ ''::: column'' @ ''(width=200)''
        @ ''\<newline>'' @ ''B'' @ ''\<newline>'' @ '':::'')
    = Inr (''<div class="row padded"><div style="width: 200px">\<newline>\<newline>'' @ ''A''
           @ ''\<newline>\<newline></div><div style="width: 200px">\<newline>\<newline>'' @ ''B''
           @ ''\<newline>\<newline></div></div>\<newline>'')\<close>
  by (rule two_columns_one_row) code_simp+




section \<open>Properties of the text preprocessor\<close>

lemma startsWith_prefix: "startsWith s p \<longleftrightarrow> prefix p s"
  by (auto simp: startsWith_def prefix_def) (metis append_take_drop_id)

lemma noOverlap_drop: "noOverlap p r \<Longrightarrow> k < length p \<Longrightarrow> \<not> startsWith r (drop k p)"
proof (induction p arbitrary: k)
  case Nil
  then show ?case by simp
next
  case (Cons c cs)
  then show ?case by (cases k) auto
qed

lemma straddle_free:
  assumes no: "noOverlap (tl pat) r" and m: "startsWith (a @ r) pat" and a: "a \<noteq> []"
  shows "startsWith a pat"
proof (rule ccontr)
  assume n: "\<not> startsWith a pat"
  from m obtain z where z: "a @ r = pat @ z" by (auto simp: startsWith_prefix prefix_def)
  have "length a < length pat"
  proof (rule ccontr)
    assume "\<not> length a < length pat"
    then have "prefix pat a" using z
      by (metis append_eq_append_conv_if linorder_not_less prefix_def append_take_drop_id)
    with n show False by (simp add: startsWith_prefix)
  qed
  then have "r = drop (length a) pat @ z" using z
    by (metis append_eq_append_conv_if less_imp_le_nat append_eq_conv_conj drop_append less_or_eq_imp_le)
  then have s: "startsWith r (drop (length a) pat)" by (simp add: startsWith_prefix)
  have "0 < length a" using a by simp
  then obtain k where k: "length a = Suc k" by (cases "length a") auto
  have "drop (length a) pat = drop k (tl pat)" by (simp add: k drop_Suc)
  moreover have "k < length (tl pat)" using \<open>length a < length pat\<close> k by simp
  ultimately show False using noOverlap_drop[OF no, of k] s by simp
qed

lemma replaceAll_append:
  "noOverlap (tl pat) r \<Longrightarrow>
   replaceAll pat rep (a @ r) = replaceAll pat rep a @ replaceAll pat rep r"
proof (induction pat rep a rule: replaceAll.induct)
  case (1 pat rep)
  then show ?case by simp
next
  case (2 pat rep c cs)
  show ?case
  proof (cases "pat \<noteq> [] \<and> startsWith (c # cs) pat")
    case True
    then have p: "prefix pat (c # cs)" by (simp add: startsWith_prefix)
    then have sw: "startsWith ((c # cs) @ r) pat"
      unfolding startsWith_prefix by (rule prefix_prefix)
    have len: "length pat \<le> length (c # cs)" using p by (rule prefix_length_le)
    have d: "drop (length pat) ((c # cs) @ r) = drop (length pat) (c # cs) @ r"
      using len by (simp only: drop_append diff_is_0_eq' drop_0)
    have "replaceAll pat rep ((c # cs) @ r) = rep @ replaceAll pat rep (drop (length pat) (c # cs) @ r)"
      using True sw d by (metis append_Cons replaceAll.simps(2))
    also have "\<dots> = rep @ replaceAll pat rep (drop (length pat) (c # cs)) @ replaceAll pat rep r"
      using "2.IH"(1)[OF True "2.prems"] by simp
    finally have l: "replaceAll pat rep ((c # cs) @ r)
        = rep @ replaceAll pat rep (drop (length pat) (c # cs)) @ replaceAll pat rep r" .
    have "replaceAll pat rep (c # cs) = rep @ replaceAll pat rep (drop (length pat) (c # cs))"
      using True by simp
    with l show ?thesis by (simp del: replaceAll.simps)
  next
    case False
    have n: "\<not> (pat \<noteq> [] \<and> startsWith ((c # cs) @ r) pat)"
    proof
      assume h: "pat \<noteq> [] \<and> startsWith ((c # cs) @ r) pat"
      then have "startsWith (c # cs) pat" using straddle_free[OF "2.prems", of "c # cs"] by simp
      with False h show False by simp
    qed
    have "replaceAll pat rep ((c # cs) @ r) = c # replaceAll pat rep (cs @ r)"
      using n by (metis append_Cons replaceAll.simps(2))
    also have "\<dots> = c # replaceAll pat rep cs @ replaceAll pat rep r"
      using "2.IH"(2)[OF False "2.prems"] by simp
    finally have l: "replaceAll pat rep ((c # cs) @ r)
        = c # replaceAll pat rep cs @ replaceAll pat rep r" .
    have "replaceAll pat rep (c # cs) = c # replaceAll pat rep cs"
      using False by auto
    with l show ?thesis by (simp del: replaceAll.simps)
  qed
qed

lemma replaceAll_absent: "\<not> includes_js s pat \<Longrightarrow> replaceAll pat rep s = s"
  by (induction pat rep s rule: replaceAll.induct) auto

lemma includes_js_iff: "includes_js s q \<longleftrightarrow> (\<exists>a b. s = a @ q @ b)"
proof (induction s)
  case Nil
  then show ?case by auto
next
  case (Cons c cs)
  show ?case
  proof
    assume "includes_js (c # cs) q"
    then consider "startsWith (c # cs) q" | "includes_js cs q" by auto
    then show "\<exists>a b. c # cs = a @ q @ b"
    proof cases
      case 1
      then obtain z where "c # cs = q @ z" by (auto simp: startsWith_prefix prefix_def)
      then have "c # cs = [] @ q @ z" by simp
      then show ?thesis by blast
    next
      case 2
      with Cons.IH obtain a b where "cs = a @ q @ b" by auto
      then have "c # cs = (c # a) @ q @ b" by simp
      then show ?thesis by blast
    qed
  next
    assume "\<exists>a b. c # cs = a @ q @ b"
    then obtain a b where ab: "c # cs = a @ q @ b" by auto
    show "includes_js (c # cs) q"
    proof (cases a)
      case Nil
      with ab have "prefix q (c # cs)" by (simp add: prefix_def)
      then show ?thesis by (simp add: startsWith_prefix)
    next
      case (Cons x xs)
      with ab have "cs = xs @ q @ b" by simp
      with Cons.IH show ?thesis by auto
    qed
  qed
qed

lemma matchImage_includes: "matchImage s = Some g \<Longrightarrow> includes_js s ''images/''"
proof -
  assume "matchImage s = Some g"
  then have "startsWith s (g @ ''images/'')"
    by (auto simp: matchImage_def split: if_splits)
  then obtain z where "s = (g @ ''images/'') @ z" by (auto simp: startsWith_prefix prefix_def)
  then have "s = g @ ''images/'' @ z" by simp
  then show ?thesis unfolding includes_js_iff by blast
qed

lemma rewriteFrom_absent: "\<not> includes_js s ''images/'' \<Longrightarrow> rewriteFrom ident pre s = s"
proof (induction s arbitrary: pre)
  case Nil
  then show ?case by simp
next
  case (Cons c cs)
  have "matchImage (c # cs) = None"
    using matchImage_includes[of "c # cs"] Cons.prems by (cases "matchImage (c # cs)") auto
  moreover have "\<not> includes_js cs ''images/''" using Cons.prems by simp
  ultimately show ?case using Cons.IH by simp
qed

lemma renameAttrs_absent:
  assumes "\<not> includes_js s ''when=''" "\<not> includes_js s ''delay=''" "\<not> includes_js s ''animation=''"
  shows "renameAttrs s = s"
  using assms by (simp add: renameAttrs_def replaceAll_absent)

lemma when_step: "replaceAll ''when='' rep (''when='' @ x) = rep @ replaceAll ''when='' rep x"
  by (simp add: startsWith_def)
lemma when_delay: "replaceAll ''when='' rep (''delay='' @ x) = ''delay='' @ replaceAll ''when='' rep x"
  by (simp add: startsWith_def)
lemma when_animation: "replaceAll ''when='' rep (''animation='' @ x) = ''animation='' @ replaceAll ''when='' rep x"
  by (simp add: startsWith_def)
lemma delay_step: "replaceAll ''delay='' rep (''delay='' @ x) = rep @ replaceAll ''delay='' rep x"
  by (simp add: startsWith_def)
lemma delay_when: "replaceAll ''delay='' rep (''data-when='' @ x) = ''data-when='' @ replaceAll ''delay='' rep x"
  by (simp add: startsWith_def)
lemma delay_animation: "replaceAll ''delay='' rep (''animation='' @ x) = ''animation='' @ replaceAll ''delay='' rep x"
  by (simp add: startsWith_def)
lemma animation_step: "replaceAll ''animation='' rep (''animation='' @ x) = rep @ replaceAll ''animation='' rep x"
  by (simp add: startsWith_def)
lemma animation_when: "replaceAll ''animation='' rep (''data-when='' @ x) = ''data-when='' @ replaceAll ''animation='' rep x"
  by (simp add: startsWith_def)
lemma animation_delay: "replaceAll ''animation='' rep (''data-delay='' @ x) = ''data-delay='' @ replaceAll ''animation='' rep x"
  by (simp add: startsWith_def)

lemma renameAttrs_when:
  "renameAttrs (pre @ ''when='' @ post) = renameAttrs pre @ ''data-when='' @ renameAttrs post"
proof -
  have 1: "noOverlap (tl ''when='') (''when='' @ x)" for x by (simp add: startsWith_def)
  have 2: "noOverlap (tl ''delay='') (''data-when='' @ x)" for x by (simp add: startsWith_def)
  have 3: "noOverlap (tl ''animation='') (''data-when='' @ x)" for x by (simp add: startsWith_def)
  show ?thesis
    unfolding renameAttrs_def
    by (simp only: replaceAll_append[OF 1] when_step replaceAll_append[OF 2] delay_when
        replaceAll_append[OF 3] animation_when)
qed

lemma renameAttrs_delay:
  "renameAttrs (pre @ ''delay='' @ post) = renameAttrs pre @ ''data-delay='' @ renameAttrs post"
proof -
  have 1: "noOverlap (tl ''when='') (''delay='' @ x)" for x by (simp add: startsWith_def)
  have 2: "noOverlap (tl ''delay='') (''delay='' @ x)" for x by (simp add: startsWith_def)
  have 3: "noOverlap (tl ''animation='') (''data-delay='' @ x)" for x by (simp add: startsWith_def)
  show ?thesis
    unfolding renameAttrs_def
    by (simp only: replaceAll_append[OF 1] when_delay replaceAll_append[OF 2] delay_step
        replaceAll_append[OF 3] animation_delay)
qed

lemma renameAttrs_animation:
  "renameAttrs (pre @ ''animation='' @ post) = renameAttrs pre @ ''data-animation='' @ renameAttrs post"
proof -
  have 1: "noOverlap (tl ''when='') (''animation='' @ x)" for x by (simp add: startsWith_def)
  have 2: "noOverlap (tl ''delay='') (''animation='' @ x)" for x by (simp add: startsWith_def)
  have 3: "noOverlap (tl ''animation='') (''animation='' @ x)" for x by (simp add: startsWith_def)
  show ?thesis
    unfolding renameAttrs_def
    by (simp only: replaceAll_append[OF 1] when_animation replaceAll_append[OF 2] delay_animation
        replaceAll_append[OF 3] animation_step)
qed

text \<open>
  Claim C7, as stated, fails: the renaming looks for the character sequences, not for
  attribute names. A name that already carries the prefix is renamed again, and so is
  the end of any longer word.
\<close>

theorem prefixed_name_renamed_again:
  "preprocess ''x'' ''data-when=1'' = ''data-data-when=1''
   \<and> preprocess ''x'' ''somewhen=1'' = ''somedata-when=1''"
  by code_simp

text \<open>
  Claim C7, amended: the preprocessor replaces every occurrence of the character
  sequences \<^verbatim>\<open>when=\<close>, \<^verbatim>\<open>delay=\<close>, \<^verbatim>\<open>animation=\<close> by the same sequence with \<^verbatim>\<open>data-\<close> in
  front, wherever the sequence stands, and touches nothing else: the text before and the
  text after an occurrence are renamed on their own. A source without any of the three
  sequences is left as it is by the renaming, and by the whole preprocessor when it has
  no \<^verbatim>\<open>images/\<close> either.
\<close>

theorem renaming_by_occurrence:
  "renameAttrs (pre @ ''when='' @ post) = renameAttrs pre @ ''data-when='' @ renameAttrs post
   \<and> renameAttrs (pre @ ''delay='' @ post) = renameAttrs pre @ ''data-delay='' @ renameAttrs post
   \<and> renameAttrs (pre @ ''animation='' @ post)
       = renameAttrs pre @ ''data-animation='' @ renameAttrs post
   \<and> (\<not> includes_js s ''when='' \<and> \<not> includes_js s ''delay='' \<and> \<not> includes_js s ''animation=''
        \<longrightarrow> renameAttrs s = s \<and> (\<not> includes_js s ''images/'' \<longrightarrow> preprocess ident s = s))"
  using renameAttrs_when renameAttrs_delay renameAttrs_animation renameAttrs_absent
  by (simp add: preprocess_def rewriteImages_def rewriteFrom_absent)

theorem renaming_by_occurrence_witness:
  "renameAttrs (''<p '' @ ''when='' @ ''a>'') = renameAttrs ''<p '' @ ''data-when='' @ renameAttrs ''a>''
   \<and> renameAttrs (''<p '' @ ''delay='' @ ''a>'') = renameAttrs ''<p '' @ ''data-delay='' @ renameAttrs ''a>''
   \<and> renameAttrs (''<p '' @ ''animation='' @ ''a>'')
       = renameAttrs ''<p '' @ ''data-animation='' @ renameAttrs ''a>''
   \<and> renameAttrs ''plain text'' = ''plain text''
   \<and> preprocess ''doc'' ''plain text'' = ''plain text''"
proof -
  have h: "\<not> includes_js ''plain text'' ''when=''" "\<not> includes_js ''plain text'' ''delay=''"
    "\<not> includes_js ''plain text'' ''animation=''" "\<not> includes_js ''plain text'' ''images/''"
    by code_simp+
  show ?thesis
    using renaming_by_occurrence[of "''<p ''" "''a>''" "''plain text''" "''doc''"] h by blast
qed


section \<open>Properties of the inline extensions\<close>

lemma splitStr_nonempty: "splitStr sep s \<noteq> []"
  by (induction sep s rule: splitStr.induct) (auto split: list.splits)

lemma length_splitStr_char: "length (splitStr [x] s) = Suc (length (filter (\<lambda>c. c = x) s))"
proof (induction s)
  case Nil
  then show ?case by simp
next
  case (Cons c cs)
  then show ?case
    using splitStr_nonempty[of "[x]" cs]
    by (cases "splitStr [x] cs") (auto simp: startsWith_def)
qed

lemma blank_cases:
  \<open>blank body = (if CHR ''|'' \<in> set body then ''<x-blank choices="'' @ body @ ''"></x-blank>''
                 else ''<x-blank-input solution="'' @ body @ ''"></x-blank-input>'')\<close>
proof -
  have "length (splitStr ''|'' body) > 1 \<longleftrightarrow> CHR ''|'' \<in> set body"
    unfolding length_splitStr_char
    by (auto simp: filter_empty_conv)
  then show ?thesis by (simp add: blank_def)
qed

lemma takeWhile_isnt: "x \<notin> set body \<Longrightarrow> takeWhile (isnt x) (body @ x # rest) = body"
  by (induction body) (auto simp: isnt_def)

lemma dropWhile_isnt: "x \<notin> set body \<Longrightarrow> dropWhile (isnt x) (body @ x # rest) = x # rest"
  by (induction body) (auto simp: isnt_def)

lemma matchBlank_marker:
  assumes "body \<noteq> []" "CHR '']'' \<notin> set body"
  shows "matchBlank (''[['' @ body @ '']]'' @ post) = Some (body, post)"
  using assms by (simp add: matchBlank_def startsWith_def takeWhile_isnt dropWhile_isnt)

lemma blanks_through:
  "\<not> includes_js (pre @ ''['') ''[['' \<Longrightarrow> r \<noteq> [] \<Longrightarrow> blanks (pre @ ''['' @ r) = pre @ blanks (''['' @ r)"
proof (induction pre)
  case Nil
  then show ?case by simp
next
  case (Cons c cs)
  have n: "\<not> startsWith ((c # cs) @ ''['') ''[[''" using Cons.prems(1) by simp
  have "\<not> startsWith ((c # cs) @ ''['' @ r) ''[[''"
    using n by (cases cs) (auto simp: startsWith_def)
  then have "matchBlank ((c # cs) @ ''['' @ r) = None" by (simp add: matchBlank_def)
  moreover have "\<not> includes_js (cs @ ''['') ''[[''" using Cons.prems(1) by simp
  ultimately show ?case using Cons.IH Cons.prems(2) by simp
qed

lemma blanks_marker:
  assumes "\<not> includes_js (pre @ ''['') ''[[''" "body \<noteq> []" "CHR '']'' \<notin> set body"
  shows "blanks (pre @ ''[['' @ body @ '']]'' @ post) = pre @ blank body @ blanks post"
proof -
  have "blanks (pre @ ''['' @ (''['' @ body @ '']]'' @ post)) = pre @ blanks (''['' @ (''['' @ body @ '']]'' @ post))"
    using assms(1) by (intro blanks_through) simp_all
  moreover have "blanks (''[['' @ body @ '']]'' @ post) = blank body @ blanks post"
    using matchBlank_marker[OF assms(2,3), of post] by simp
  ultimately show ?thesis by simp
qed

lemma bound_no_dollar: "CHR ''$'' \<notin> set s \<Longrightarrow> bound s = s"
  by (induction s) (auto simp: matchBound_def startsWith_def)

lemma vars_no_dollar: "CHR ''$'' \<notin> set s \<Longrightarrow> vars s = s"
  by (induction s) (auto simp: matchVar_def startsWith_def)

lemma matchBlank_sets:
  "matchBlank s = Some (body, r) \<Longrightarrow> set body \<subseteq> set s \<and> set r \<subseteq> set s"
proof -
  assume "matchBlank s = Some (body, r)"
  then have b: "body = takeWhile (isnt CHR '']'') (drop 2 s)"
    and r: "r = drop 2 (dropWhile (isnt CHR '']'') (drop 2 s))"
    by (auto simp: matchBlank_def Let_def split: if_splits)
  have "set body \<subseteq> set (drop 2 s)" unfolding b by (auto dest: set_takeWhileD)
  moreover have "set r \<subseteq> set (drop 2 s)" unfolding r
    by (auto dest!: in_set_dropD dest: set_dropWhileD)
  ultimately show ?thesis using set_drop_subset[of 2 s] by blast
qed

lemma blank_no_dollar: "CHR ''$'' \<notin> set body \<Longrightarrow> CHR ''$'' \<notin> set (blank body)"
  by (simp add: blank_def)

lemma blanks_no_dollar: "CHR ''$'' \<notin> set s \<Longrightarrow> CHR ''$'' \<notin> set (blanks s)"
proof (induction s rule: blanks.induct)
  case 1
  then show ?case by simp
next
  case (2 c cs)
  show ?case
  proof (cases "matchBlank (c # cs)")
    case None
    then show ?thesis using 2 by simp
  next
    case (Some x)
    obtain body r where x: "x = (body, r)" by (cases x)
    from matchBlank_sets[of "c # cs" body r] Some x "2.prems"
    have "CHR ''$'' \<notin> set body" "CHR ''$'' \<notin> set r" by auto
    then show ?thesis using "2.IH"(2)[OF Some x[symmetric]] Some x blank_no_dollar by simp
  qed
qed

text \<open>
  Claim C8, as stated, fails: after the blank markers, \<^verbatim>\<open>parseParagraph\<close> runs the two
  variable rules and the emoji resolver over the whole text, the attribute just written
  included. A body with a variable marker ends with markup inside the attribute, and a
  body with a name between colons loses the colons (\<^verbatim>\<open>onMissing\<close> is the identity).
\<close>

theorem blank_body_rewritten:
  \<open>parseParagraph emojify_model ''[[${x}]]''
      = ''<x-blank-input solution="<span class="var">${x}</span>"></x-blank-input>''
   \<and> parseParagraph emojify_model ''[[10:30:45]]''
      = ''<x-blank-input solution="103045"></x-blank-input>''\<close>
  by code_simp

text \<open>
  Claim C8, amended: the first rule of \<^verbatim>\<open>parseParagraph\<close> replaces a marker \<^verbatim>\<open>[[body]]\<close> (a
  non-empty body without \<^verbatim>\<open>]\<close>, after a text in which no \<^verbatim>\<open>[[\<close> is left open) by the
  multiple-choice element with the whole body as its \<^verbatim>\<open>choices\<close> when the body has a \<^verbatim>\<open>|\<close>,
  and by the free-text element with the body as its \<^verbatim>\<open>solution\<close> when it has none. When
  the text run holds no \<^verbatim>\<open>$\<close> and the emoji resolver returns the rewritten text as it is,
  this is the text that \<^verbatim>\<open>parseParagraph\<close> returns.
\<close>

theorem blank_markers:
  assumes "\<not> includes_js (pre @ ''['') ''[[''" and "body \<noteq> []" and "CHR '']'' \<notin> set body"
  shows \<open>blanks (pre @ ''[['' @ body @ '']]'' @ post)
           = pre @ (if CHR ''|'' \<in> set body then ''<x-blank choices="'' @ body @ ''"></x-blank>''
                    else ''<x-blank-input solution="'' @ body @ ''"></x-blank-input>'')
                 @ blanks post
         \<and> (CHR ''$'' \<notin> set (pre @ body @ post)
              \<and> emojify (\<lambda>x. x) emojiImg
                    (pre @ (if CHR ''|'' \<in> set body then ''<x-blank choices="'' @ body @ ''"></x-blank>''
                            else ''<x-blank-input solution="'' @ body @ ''"></x-blank-input>'')
                         @ blanks post)
                  = pre @ (if CHR ''|'' \<in> set body then ''<x-blank choices="'' @ body @ ''"></x-blank>''
                           else ''<x-blank-input solution="'' @ body @ ''"></x-blank-input>'')
                        @ blanks post
              \<longrightarrow> parseParagraph emojify (pre @ ''[['' @ body @ '']]'' @ post)
                  = pre @ (if CHR ''|'' \<in> set body then ''<x-blank choices="'' @ body @ ''"></x-blank>''
                           else ''<x-blank-input solution="'' @ body @ ''"></x-blank-input>'')
                        @ blanks post)\<close>
proof -
  have b: "blanks (pre @ ''[['' @ body @ '']]'' @ post) = pre @ blank body @ blanks post"
    using assms(1-3) by (rule blanks_marker)
  have v: "vars (bound (pre @ blank body @ blanks post)) = pre @ blank body @ blanks post"
    if "CHR ''$'' \<notin> set (pre @ body @ post)"
  proof -
    have "CHR ''$'' \<notin> set (pre @ blank body @ blanks post)"
      using that blank_no_dollar[of body] blanks_no_dollar[of post] by simp
    then show ?thesis
      using bound_no_dollar[of "pre @ blank body @ blanks post"]
        vars_no_dollar[of "pre @ blank body @ blanks post"] by presburger
  qed
  show ?thesis
    using b v unfolding parseParagraph_def blank_cases by simp
qed

theorem blank_markers_witness:
  \<open>blanks ''see [[paris|london|berlin]] or [[42]]''
      = ''see <x-blank choices="paris|london|berlin"></x-blank> or <x-blank-input solution="42"></x-blank-input>''
   \<and> parseParagraph emojify_model ''[[paris|london|berlin]]''
      = ''<x-blank choices="paris|london|berlin"></x-blank>''
   \<and> parseParagraph emojify_model ''[[42]]'' = ''<x-blank-input solution="42"></x-blank-input>''\<close>
proof -
  have e: \<open>emojify_model (\<lambda>x. x) emojiImg ''<x-blank choices="paris|london|berlin"></x-blank>''
            = ''<x-blank choices="paris|london|berlin"></x-blank>''\<close>
    \<open>emojify_model (\<lambda>x. x) emojiImg ''<x-blank-input solution="42"></x-blank-input>''
            = ''<x-blank-input solution="42"></x-blank-input>''\<close>
    by code_simp+
  have h: "\<not> includes_js ([] @ ''['') ''[[''" "\<not> includes_js (''see '' @ ''['') ''[[''"
    "''paris|london|berlin'' \<noteq> []" "CHR '']'' \<notin> set ''paris|london|berlin''"
    "''42'' \<noteq> []" "CHR '']'' \<notin> set ''42''"
    by code_simp+
  have r: \<open>blanks '' or [[42]]'' = '' or <x-blank-input solution="42"></x-blank-input>''\<close>
    by code_simp
  from blank_markers[OF h(2,3,4), of "'' or [[42]]''" emojify_model] r
  have 1: \<open>blanks ''see [[paris|london|berlin]] or [[42]]''
      = ''see <x-blank choices="paris|london|berlin"></x-blank> or <x-blank-input solution="42"></x-blank-input>''\<close>
    by simp
  from blank_markers[OF h(1,3,4), of "[]" emojify_model] e(1)
  have 2: \<open>parseParagraph emojify_model ''[[paris|london|berlin]]''
      = ''<x-blank choices="paris|london|berlin"></x-blank>''\<close>
    by simp
  from blank_markers[OF h(1,5,6), of "[]" emojify_model] e(2)
  have 3: \<open>parseParagraph emojify_model ''[[42]]'' = ''<x-blank-input solution="42"></x-blank-input>''\<close>
    by simp
  from 1 2 3 show ?thesis by blast
qed

section \<open>Properties of the renderer and of the reference sets\<close>

lemma add_distinct: "distinct xs \<Longrightarrow> distinct (add x xs)"
  by (simp add: add_def)

lemma link_sets_ok: "sets_ok s \<Longrightarrow> link E href t s = (out, s') \<Longrightarrow> sets_ok s'"
  by (auto simp: link_def sets_ok_def Let_def add_distinct split: if_splits)

lemma heading_sets_ok: "sets_ok s \<Longrightarrow> heading t level s = (out, s') \<Longrightarrow> sets_ok s'"
  by (auto simp: heading_def sets_ok_def split: if_splits)

lemma paragraph_sets_ok: "sets_ok s \<Longrightarrow> paragraph_r E t s = (out, s') \<Longrightarrow> sets_ok s'"
  by (auto simp: paragraph_r_def sets_ok_def)

lemma listitem_sets_ok: "sets_ok s \<Longrightarrow> listitem E t s = (out, s') \<Longrightarrow> sets_ok s'"
  by (auto simp: listitem_def sets_ok_def)

lemma assignCurrent_sets: "gloss (assignCurrent s d) = gloss s" "bios (assignCurrent s d) = bios s"
  by (auto simp: assignCurrent_def split: option.splits stepsval.splits)

lemma blockquote_sets_ok: "sets_ok s \<Longrightarrow> blockquote E q s = Inr (out, s') \<Longrightarrow> sets_ok s'"
  by (auto simp: blockquote_def sets_ok_def Let_def assignCurrent_sets split: option.splits)

lemma hr_sets_ok: "sets_ok s \<Longrightarrow> hr s = Inr (out, s') \<Longrightarrow> sets_ok s'"
  by (auto simp: hr_def sets_ok_def Let_def split: stepsval.splits)

lemma code_sets_ok: "sets_ok s \<Longrightarrow> code E c s = Inr (out, s') \<Longrightarrow> sets_ok s'"
  by (auto simp: code_def sets_ok_def split: if_splits option.splits)

lemma inline_sets_ok:
  "(inlineOut E x s = Inr (out, s') \<longrightarrow> sets_ok s \<longrightarrow> sets_ok s')"
  "(inlinesOut E xs s = Inr (out, s') \<longrightarrow> sets_ok s \<longrightarrow> sets_ok s')"
proof (induction E x s and E xs s arbitrary: out s' and out s' rule: inlineOut_inlinesOut.induct)
  case (1 E t s)
  then show ?case by auto
next
  case (2 E a xs b s)
  then show ?case by (auto split: sum.splits)
next
  case (3 E href xs s)
  then show ?case by (auto split: sum.splits dest: link_sets_ok)
next
  case (4 E c s)
  then show ?case by (auto split: option.splits)
next
  case (5 E s)
  then show ?case by auto
next
  case (6 E x xs s)
  then show ?case by (fastforce split: sum.splits)
qed

lemma block_sets_ok:
  "(tok E b s = Inr (out, s') \<longrightarrow> sets_ok s \<longrightarrow> sets_ok s')"
  "(parse E bs s = Inr (out, s') \<longrightarrow> sets_ok s \<longrightarrow> sets_ok s')"
proof (induction E b s and E bs s arbitrary: out s' and out s' rule: tok_parse.induct)
  case (1 E t s)
  then show ?case by auto
next
  case (2 E a bs b s)
  then show ?case by (auto split: sum.splits)
next
  case (3 E xs s)
  then show ?case using inline_sets_ok(2) by auto
next
  case (4 E xs level s)
  then show ?case using inline_sets_ok(2) by (fastforce split: sum.splits dest: heading_sets_ok)
next
  case (5 E xs s)
  then show ?case using inline_sets_ok(2) by (fastforce split: sum.splits dest: paragraph_sets_ok)
next
  case (6 E s)
  then show ?case using hr_sets_ok by auto
next
  case (7 E c s)
  then show ?case using code_sets_ok by auto
next
  case (8 E bs s)
  then show ?case by (fastforce split: sum.splits dest: blockquote_sets_ok)
next
  case (9 E bs s)
  then show ?case by (fastforce split: sum.splits dest: listitem_sets_ok)
next
  case (10 E s)
  then show ?case by auto
next
  case (11 E b bs s)
  then show ?case by (fastforce split: sum.splits)
qed

lemma mdLoop_sets_ok:
  "mdLoop E b0 visited ps (b, s) = Inr (b', s') \<Longrightarrow> sets_ok s \<Longrightarrow> sets_ok s'"
proof (induction ps arbitrary: visited b s)
  case Nil
  then show ?case by simp
next
  case (Cons p ps)
  from Cons.prems(1) obtain t a cs out s1 where
    n: "getNode p b0 = Some (Element t a cs)"
    and pr: "parse E (e_lexDefault E (e_innerHTML E (Element t a cs))) s = Inr (out, s1)"
    by (auto split: option.splits node.splits sum.splits)
  have s1: "sets_ok s1" using block_sets_ok(2) pr Cons.prems(2) by blast
  from Cons.prems(1) n pr obtain b1 where "mdLoop E b0 (visited @ [p]) ps (b1, s1) = Inr (b', s')"
    by auto
  then show ?case using Cons.IH s1 by blast
qed

lemma reset_sets_ok: "sets_ok (reset path s)"
  by (simp add: reset_def sets_ok_def)

lemma parseTree_sets_ok:
  assumes "parseTree E ident content path s0 = Inr (b, s)"
  shows "sets_ok s"
proof -
  from assms obtain content' parsed s1 b1 b2 s2 d where
    p: "parse E (e_lex E content') (reset path s0) = Inr (parsed, s1)"
    and m: "mdLoop E b1 [] (filter (isMd b1) (elems b1)) (b1, s1) = Inr (b2, s2)"
    and s: "s = s2\<lparr>data := d\<rparr>"
    unfolding parseTree_def Let_def
    by (auto split: sum.splits prod.splits)
  have "sets_ok s1" using block_sets_ok(2) p reset_sets_ok by blast
  then have "sets_ok s2" using mdLoop_sets_ok m by blast
  then show ?thesis by (simp add: s sets_ok_def)
qed

text \<open>
  Claim C4: the glossary set and the biography set that \<^verbatim>\<open>parseFull\<close> returns hold every
  identifier at most once, however many links name it; two links to the same glossary
  (or biography) identifier leave a set with that identifier alone.
\<close>

theorem reference_sets_unique:
  \<open>(parseFull E ident content path s0 = Inr (res, s)
      \<longrightarrow> distinct (res_gloss res) \<and> distinct (res_bios res))
   \<and> inlinesOut E [Link (''gloss:'' @ x) [Raw t1], Link (''gloss:'' @ x) [Raw t2]] (reset path s0)
       = Inr (''<x-gloss xid="'' @ x @ ''">'' @ t1 @ ''</x-gloss>''
                @ ''<x-gloss xid="'' @ x @ ''">'' @ t2 @ ''</x-gloss>'',
              (reset path s0)\<lparr>gloss := [x]\<rparr>)
   \<and> inlinesOut E [Link (''bio:'' @ x) [Raw t1], Link (''bio:'' @ x) [Raw t2]] (reset path s0)
       = Inr (''<x-bio xid="'' @ x @ ''">'' @ t1 @ ''</x-bio>''
                @ ''<x-bio xid="'' @ x @ ''">'' @ t2 @ ''</x-bio>'',
              (reset path s0)\<lparr>bios := [x]\<rparr>)\<close>
proof (intro conjI impI)
  assume r: "parseFull E ident content path s0 = Inr (res, s)"
  then obtain b where t: "parseTree E ident content path s0 = Inr (b, s)"
    and res: "res_gloss res = gloss s" "res_bios res = bios s"
    unfolding parseFull_def by (auto split: sum.splits prod.splits)
  from parseTree_sets_ok[OF t] res show "distinct (res_gloss res)" "distinct (res_bios res)"
    by (simp_all add: sets_ok_def)
next
  show \<open>inlinesOut E [Link (''gloss:'' @ x) [Raw t1], Link (''gloss:'' @ x) [Raw t2]] (reset path s0)
       = Inr (''<x-gloss xid="'' @ x @ ''">'' @ t1 @ ''</x-gloss>''
                @ ''<x-gloss xid="'' @ x @ ''">'' @ t2 @ ''</x-gloss>'',
              (reset path s0)\<lparr>gloss := [x]\<rparr>)\<close>
    by (simp add: link_def startsWith_def add_def reset_def)
next
  show \<open>inlinesOut E [Link (''bio:'' @ x) [Raw t1], Link (''bio:'' @ x) [Raw t2]] (reset path s0)
       = Inr (''<x-bio xid="'' @ x @ ''">'' @ t1 @ ''</x-bio>''
                @ ''<x-bio xid="'' @ x @ ''">'' @ t2 @ ''</x-bio>'',
              (reset path s0)\<lparr>bios := [x]\<rparr>)\<close>
    by (simp add: link_def startsWith_def add_def reset_def)
qed

theorem reference_sets_unique_witness:
  "(case parseFull env_examples ''doc'' ''[a](gloss:atom) [b](gloss:atom) [c](bio:bohr)'' ''/dir'' initial of
      Inl e \<Rightarrow> False
    | Inr (res, s) \<Rightarrow>
        res_gloss res = [''atom''] \<and> res_bios res = [''bohr'']
        \<and> distinct (res_gloss res) \<and> distinct (res_bios res))"
proof -
  have "(case parseFull env_examples ''doc'' ''[a](gloss:atom) [b](gloss:atom) [c](bio:bohr)'' ''/dir'' initial of
      Inl e \<Rightarrow> False
    | Inr (res, s) \<Rightarrow> res_gloss res = [''atom''] \<and> res_bios res = [''bohr''])"
    by code_simp
  then obtain res s where
    r: "parseFull env_examples ''doc'' ''[a](gloss:atom) [b](gloss:atom) [c](bio:bohr)'' ''/dir'' initial
          = Inr (res, s)"
    and v: "res_gloss res = [''atom'']" "res_bios res = [''bohr'']"
    by (auto split: sum.splits prod.splits)
  from reference_sets_unique[of env_examples "''doc''" _ "''/dir''" initial res s]
  have "distinct (res_gloss res) \<and> distinct (res_bios res)" using r by blast
  then show ?thesis using r v by simp
qed

section \<open>Properties of the heading and of the cached paragraph\<close>

lemma preprocess_Intro: "preprocess ident ''# Intro'' = ''# Intro''"
proof -
  have a: "rewriteFrom ident [] ''# Intro'' = ''# Intro''"
    by (rule rewriteFrom_absent) code_simp
  have b: "renameAttrs ''# Intro'' = ''# Intro''"
    by (rule renameAttrs_absent) code_simp+
  show ?thesis by (simp only: preprocess_def rewriteImages_def a b)
qed

lemma blockIndentation_Intro: "blockIndentation pug ''# Intro'' = Inr ''# Intro''"
proof -
  have "splitStr ''\<newline>'' ''# Intro'' = [''# Intro'']" by code_simp
  moreover have "\<not> startsWith ''# Intro'' '':::''" by code_simp
  ultimately show ?thesis
    by (simp add: blockIndentation_def blockLines_plain consR_def del: blockLines.simps(2))
qed

lemma passes_empty_body:
  "attributesLoop E (Element ''body'' [] []) (nodes (Element ''body'' [] [])) = Inr (Element ''body'' [] [])"
  "mdLoop E (Element ''body'' [] []) [] (filter (isMd (Element ''body'' [] [])) (elems (Element ''body'' [] []))) (b, s) = Inr (b, s)"
  "parentPass (Element ''body'' [] []) = Inr (Element ''body'' [] [])"
  "stepPass d (Element ''body'' [] []) = Inr (d, Element ''body'' [] [])"
  "stepsHTML E (Element ''body'' [] []) = []"
  by (simp_all add: parentPass_def stepPass_def stepsHTML_def)

text \<open>
  Claim C6: a heading of level 1 sets \<^verbatim>\<open>data.title\<close> to its text and gives no output, a
  heading of any other level gives the heading element and changes nothing. So the
  document that is the heading \<^verbatim>\<open># Intro\<close> alone (the lexer gives this one token, and
  the tree builder an empty body for the closing step tag that is all the HTML) comes
  back with the title \<^verbatim>\<open>Intro\<close>, no step records and no step elements.
\<close>

theorem heading_sets_title:
  \<open>heading text 1 s = ('''', s\<lparr>data := (data s)\<lparr>props := setProp ''title'' (Str text) (props (data s))\<rparr>\<rparr>)
   \<and> (level \<noteq> 1 \<longrightarrow>
        heading text level s = (''<h'' @ showNat level @ ''>'' @ text @ ''</h'' @ showNat level @ ''>'', s))
   \<and> (e_lex E ''# Intro'' = [Heading [Raw ''Intro''] 1] \<and> e_jsdom E ''</x-step>'' = Element ''body'' [] []
        \<longrightarrow> parseFull E ident ''# Intro'' path s0
            = Inr (\<lparr>res_html = e_minify E (e_innerHTML E (Element ''body'' [] [])),
                    res_bios = [], res_gloss = [],
                    res_data = \<lparr>props = [(''title'', Str ''Intro'')], steps = Steps []\<rparr>,
                    res_steps = []\<rparr>,
                   (reset path s0)\<lparr>data := \<lparr>props = [(''title'', Str ''Intro'')], steps = Steps []\<rparr>\<rparr>))\<close>
proof (intro conjI impI)
  show "heading text 1 s
      = ('''', s\<lparr>data := (data s)\<lparr>props := setProp ''title'' (Str text) (props (data s))\<rparr>\<rparr>)"
    by (simp add: heading_def)
next
  assume "level \<noteq> 1"
  then show "heading text level s
      = (''<h'' @ showNat level @ ''>'' @ text @ ''</h'' @ showNat level @ ''>'', s)"
    by (simp add: heading_def)
next
  assume a: "e_lex E ''# Intro'' = [Heading [Raw ''Intro''] 1] \<and> e_jsdom E ''</x-step>'' = Element ''body'' [] []"
  have p: "parse E [Heading [Raw ''Intro''] 1] (reset path s0)
      = Inr ('''', (reset path s0)\<lparr>data := \<lparr>props = [(''title'', Str ''Intro'')], steps = Steps []\<rparr>\<rparr>)"
    by (simp add: heading_def reset_def)
  have t: "parseTree E ident ''# Intro'' path s0
      = Inr (Element ''body'' [] [],
             (reset path s0)\<lparr>data := \<lparr>props = [(''title'', Str ''Intro'')], steps = Steps []\<rparr>\<rparr>)"
    unfolding parseTree_def Let_def preprocess_Intro blockIndentation_Intro
    using a p by (simp add: passes_empty_body)
  show "parseFull E ident ''# Intro'' path s0
            = Inr (\<lparr>res_html = e_minify E (e_innerHTML E (Element ''body'' [] [])),
                    res_bios = [], res_gloss = [],
                    res_data = \<lparr>props = [(''title'', Str ''Intro'')], steps = Steps []\<rparr>,
                    res_steps = []\<rparr>,
                   (reset path s0)\<lparr>data := \<lparr>props = [(''title'', Str ''Intro'')], steps = Steps []\<rparr>\<rparr>)"
    unfolding parseFull_def t by (simp add: passes_empty_body reset_def)
qed

theorem heading_sets_title_witness:
  \<open>heading ''Intro'' 2 initial = (''<h2>Intro</h2>'', initial)
   \<and> parseFull env_examples ''doc'' ''# Intro'' ''/dir'' initial
       = Inr (\<lparr>res_html = '''', res_bios = [], res_gloss = [],
               res_data = \<lparr>props = [(''title'', Str ''Intro'')], steps = Steps []\<rparr>,
               res_steps = []\<rparr>,
              (reset ''/dir'' initial)\<lparr>data := \<lparr>props = [(''title'', Str ''Intro'')], steps = Steps []\<rparr>\<rparr>)\<close>
proof -
  have h: "e_lex env_examples ''# Intro'' = [Heading [Raw ''Intro''] 1]
      \<and> e_jsdom env_examples ''</x-step>'' = Element ''body'' [] []"
    by code_simp
  have n: "(2::nat) \<noteq> 1" by simp
  have m: "e_minify env_examples (e_innerHTML env_examples (Element ''body'' [] [])) = ''''"
    by code_simp
  have s: "showNat 2 = ''2''" by code_simp
  from heading_sets_title[of "''Intro''" initial 2 env_examples "''doc''" "''/dir''" initial] h n
  show ?thesis unfolding m s by simp
qed

text \<open>
  Claim C2 does not hold of the code: the head of \<^verbatim>\<open>parseFull\<close> resets six of the seven
  module variables and leaves \<^verbatim>\<open>originalP\<close>, which \<^verbatim>\<open>renderer.blockquote\<close> reads. After a
  document that ends with the paragraph \<^verbatim>\<open>title: Stale\<close>, the document \<^verbatim>\<open>> ## x: y\<close> (a
  block quote without a paragraph of its own) comes back with the title of the document
  before it; compiled first, it has no title.
\<close>

theorem reset_keeps_cached_paragraph:
  "originalP (reset path s) = originalP s
   \<and> (case parseFull env_examples ''doc'' ''title: Stale'' ''/dir'' initial of
         Inl e \<Rightarrow> False
       | Inr (r1, s1) \<Rightarrow>
           (case parseFull env_examples ''doc'' ''> ## x: y'' ''/dir'' s1 of
              Inl e \<Rightarrow> False
            | Inr (r2, s2) \<Rightarrow> props (res_data r2) = [(''title'', Str ''Stale'')]))
   \<and> (case parseFull env_examples ''doc'' ''> ## x: y'' ''/dir'' initial of
         Inl e \<Rightarrow> False
       | Inr (r, s') \<Rightarrow> props (res_data r) = [(''<h2>x'', Str ''y</h2>'')])"
proof (intro conjI)
  show "originalP (reset path s) = originalP s" by (simp add: reset_def)
  show "(case parseFull env_examples ''doc'' ''title: Stale'' ''/dir'' initial of
         Inl e \<Rightarrow> False
       | Inr (r1, s1) \<Rightarrow>
           (case parseFull env_examples ''doc'' ''> ## x: y'' ''/dir'' s1 of
              Inl e \<Rightarrow> False
            | Inr (r2, s2) \<Rightarrow> props (res_data r2) = [(''title'', Str ''Stale'')]))"
    by code_simp
  show "(case parseFull env_examples ''doc'' ''> ## x: y'' ''/dir'' initial of
         Inl e \<Rightarrow> False
       | Inr (r, s') \<Rightarrow> props (res_data r) = [(''<h2>x'', Str ''y</h2>'')])"
    by code_simp
qed

section \<open>Properties of the document tree\<close>

lemma child_onChild:
  "child j (onChild i f n) = (if j = i then map_option f (child i n) else child j n)"
  by (cases n) (auto simp: child_def onChild_def nth_js_def)

lemma child_onAttrs: "child j (onAttrs g n) = child j n"
  by (cases n) (auto simp: child_def onAttrs_def)

lemma getNode_onAttrs_Cons: "getNode (j # q) (onAttrs g n) = getNode (j # q) n"
  by (simp add: child_onAttrs)

lemma attrsAt_Nil_onChild: "attrsAt (onChild i f n) [] = attrsAt n []"
  by (cases n) (auto simp: attrsAt_def onChild_def)

lemma attrsAt_Cons:
  "attrsAt n (j # q) = (case child j n of None \<Rightarrow> None | Some c \<Rightarrow> attrsAt c q)"
  by (auto simp: attrsAt_def split: option.splits)

lemma attrsAt_editAttrs:
  "attrsAt (editAttrs p g b) q = (if q = p then map_option g (attrsAt b q) else attrsAt b q)"
proof (induction p arbitrary: b q)
  case Nil
  show ?case
  proof (cases q)
    case Nil
    then show ?thesis by (cases b) (auto simp: editAttrs_def attrsAt_def onAttrs_def)
  next
    case (Cons j q')
    then show ?thesis
      by (simp add: editAttrs_def attrsAt_def child_onAttrs)
  qed
next
  case (Cons i p)
  have e: "editAttrs (i # p) g b = onChild i (editAttrs p g) b"
    by (simp add: editAttrs_def)
  show ?case
  proof (cases q)
    case Nil
    then show ?thesis by (simp add: e attrsAt_Nil_onChild)
  next
    case (Cons j q')
    show ?thesis
    proof (cases "child i b")
      case None
      then show ?thesis
        unfolding Cons e attrsAt_Cons child_onChild by auto
    next
      case (Some c)
      then show ?thesis
        unfolding Cons e attrsAt_Cons child_onChild using Cons.IH[of c q'] by auto
    qed
  qed
qed

text \<open>A change that keeps the elements below a node and what kind of node it is.\<close>

lemma elemsFrom_update:
  "i < length cs \<Longrightarrow> elems c' = elems (cs ! i) \<Longrightarrow> isElement c' = isElement (cs ! i)
   \<Longrightarrow> elemsFrom k (cs[i := c']) = elemsFrom k cs"
proof (induction cs arbitrary: i k)
  case Nil
  then show ?case by simp
next
  case (Cons c cs)
  then show ?case by (cases i) auto
qed

lemma elems_onChild:
  assumes "\<And>c. elems (f c) = elems c" "\<And>c. isElement (f c) = isElement c"
  shows "elems (onChild i f n) = elems n" "isElement (onChild i f n) = isElement n"
  using assms by (cases n; auto simp: onChild_def isElement_def elemsFrom_update)+

lemma elems_onAttrs: "elems (onAttrs g n) = elems n" "isElement (onAttrs g n) = isElement n"
  by (cases n; simp add: onAttrs_def isElement_def)+

lemma elems_editAttrs:
  "elems (editAttrs p g b) = elems b \<and> isElement (editAttrs p g b) = isElement b"
proof (induction p arbitrary: b)
  case Nil
  then show ?case by (simp add: editAttrs_def elems_onAttrs)
next
  case (Cons i p)
  have e: "editAttrs (i # p) g b = onChild i (editAttrs p g) b"
    by (simp add: editAttrs_def)
  show ?case unfolding e using elems_onChild[of "editAttrs p g" i b] Cons.IH by simp
qed

lemma elems_paths:
  "p \<in> set (elems n) \<Longrightarrow> p \<noteq> [] \<and> (\<exists>t a cs. getNode p n = Some (Element t a cs))"
  "p \<in> set (elemsFrom i cs) \<Longrightarrow>
     \<exists>j q. p = j # q \<and> i \<le> j \<and> j - i < length cs
           \<and> (\<exists>t a cs'. getNode q (cs ! (j - i)) = Some (Element t a cs'))"
proof (induction n and i cs arbitrary: p and p rule: elems_elemsFrom.induct)
  case (1 t a cs)
  then obtain j q where "p = j # q" "j < length cs"
    "\<exists>t a cs'. getNode q (cs ! j) = Some (Element t a cs')" by fastforce
  then show ?case by (auto simp: child_def nth_js_def)
next
  case (2 x)
  then show ?case by simp
next
  case (3 x)
  then show ?case by simp
next
  case (4 i)
  then show ?case by simp
next
  case (5 i c cs)
  from "5.prems" consider "isElement c" "p = [i]" | "p \<in> (#) i ` set (elems c)"
    | "p \<in> set (elemsFrom (Suc i) cs)" by (auto split: if_splits)
  then show ?case
  proof cases
    case 1
    then show ?thesis by (cases c) (auto simp: isElement_def)
  next
    case 2
    then obtain q where q: "p = i # q" "q \<in> set (elems c)" by auto
    from "5.IH"(1)[OF q(2)] q(1) show ?thesis by auto
  next
    case 3
    from "5.IH"(2)[OF 3] obtain j q where
      j: "p = j # q" "Suc i \<le> j" "j - Suc i < length cs"
      "\<exists>t a cs'. getNode q (cs ! (j - Suc i)) = Some (Element t a cs')" by blast
    from j(2) have ji: "j - i = Suc (j - Suc i)" by arith
    have "(c # cs) ! (j - i) = cs ! (j - Suc i)" unfolding ji by simp
    moreover have "i \<le> j" "j - i < length (c # cs)" using j(2,3) ji by simp_all
    ultimately show ?thesis using j(1,4) by auto
  qed
qed

lemma elems_distinct: "distinct (elems n)" "distinct (elemsFrom i cs)"
proof (induction n and i cs rule: elems_elemsFrom.induct)
  case (5 i c cs)
  have a: "[i] \<notin> (#) i ` set (elems c)" using elems_paths(1)[of "[]" c] by auto
  have b: "\<And>p. p \<in> set (elemsFrom (Suc i) cs) \<Longrightarrow> hd p \<noteq> i \<and> p \<noteq> []"
    using elems_paths(2)[of _ "Suc i" cs] by fastforce
  have c: "distinct (map ((#) i) (elems c))" using "5.IH"(1) by (simp add: distinct_map)
  have d: "[i] \<notin> set (elemsFrom (Suc i) cs)" using b by fastforce
  have e: "(#) i ` set (elems c) \<inter> set (elemsFrom (Suc i) cs) = {}" using b by fastforce
  show ?case using a c d e "5.IH"(2) by auto
qed simp_all

lemma parent_is_element:
  "getNode p n = Some m \<Longrightarrow> p \<noteq> [] \<Longrightarrow> \<exists>t a cs. getNode (butlast p) n = Some (Element t a cs)"
proof (induction p arbitrary: n)
  case Nil
  then show ?case by simp
next
  case (Cons i p)
  from Cons.prems(1) obtain c where c: "child i n = Some c" "getNode p c = Some m"
    by (auto split: option.splits)
  show ?case
  proof (cases p)
    case Nil
    from c(1) show ?thesis unfolding Nil by (cases n) (auto simp: child_def)
  next
    case (Cons j q)
    then show ?thesis using Cons.IH[OF c(2)] c(1) by auto
  qed
qed

lemma getAttribute_setAttribute:
  "getAttribute (setAttribute k v a) k' = (if k' = k then Some v else getAttribute a k')"
  by (induction a) (auto simp: getAttribute_def)

lemma getAttribute_removeAttribute:
  "getAttribute (removeAttribute k a) k' = (if k' = k then None else getAttribute a k')"
  by (induction a) (auto simp: getAttribute_def removeAttribute_def)

lemma classTokens_removeAttribute: "classTokens (removeAttribute ''parent'' a) = classTokens a"
  by (simp add: classTokens_def getAttribute_removeAttribute)

lemma parent_classAdd: "getAttribute (classAdd cl a) ''parent'' = getAttribute a ''parent''"
  by (simp add: classAdd_def getAttribute_setAttribute)

declare words_js.simps [simp del]

lemma words_js_Nil: "words_js [] = []"
  by (subst words_js.simps) simp

lemma words_js_skip: "words_js (dropWhile isAsciiSpace s) = words_js s"
  by (subst words_js.simps, subst (2) words_js.simps) simp

lemma words_js_good: "t \<in> set (words_js s) \<Longrightarrow> \<not> badToken t"
proof (induction s rule: words_js.induct)
  case (1 s)
  define r where "r = dropWhile isAsciiSpace s"
  show ?case
  proof (cases "r = []")
    case True
    then have "words_js s = []" by (subst words_js.simps) (simp add: r_def)
    with 1(2) show ?thesis by simp
  next
    case False
    have w: "words_js s = takeWhile (\<lambda>c. \<not> isAsciiSpace c) r
                # words_js (dropWhile (\<lambda>c. \<not> isAsciiSpace c) r)"
      using False by (subst words_js.simps) (simp add: r_def Let_def)
    have h: "\<not> isAsciiSpace (hd r)" using False hd_dropWhile[of isAsciiSpace s] by (simp add: r_def)
    have ne: "takeWhile (\<lambda>c. \<not> isAsciiSpace c) r \<noteq> []" using False h by (cases r) auto
    have "\<not> badToken (takeWhile (\<lambda>c. \<not> isAsciiSpace c) r)"
      using ne by (auto simp: badToken_def dest: set_takeWhileD)
    then show ?thesis using 1(1)[OF r_def False] 1(2) w by auto
  qed
qed

lemma words_js_token:
  assumes "\<not> badToken t" and "rest = [] \<or> isAsciiSpace (hd rest)"
  shows "words_js (t @ rest) = t # words_js rest"
proof -
  from assms(1) have ne: "t \<noteq> []" and ns: "\<forall>x \<in> set t. \<not> isAsciiSpace x"
    by (auto simp: badToken_def)
  have d: "dropWhile isAsciiSpace (t @ rest) = t @ rest" using ne ns by (cases t) auto
  have tk: "takeWhile (\<lambda>c. \<not> isAsciiSpace c) (t @ rest) = t"
    using ns assms(2) by (cases rest) (auto simp: takeWhile_append2)
  have dr: "dropWhile (\<lambda>c. \<not> isAsciiSpace c) (t @ rest) = rest"
    using ns assms(2) by (cases rest) (auto simp: dropWhile_append2)
  show ?thesis using ne by (subst words_js.simps) (simp add: d tk dr Let_def)
qed

lemma words_js_join: "\<forall>t \<in> set ts. \<not> badToken t \<Longrightarrow> words_js (joinStr '' '' ts) = ts"
proof (induction ts)
  case Nil
  then show ?case by (simp add: words_js_Nil)
next
  case (Cons x ts)
  show ?case
  proof (cases ts)
    case Nil
    then show ?thesis using Cons.prems words_js_token[of x "[]"] by (simp add: words_js_Nil)
  next
    case (Cons y ys)
    have "words_js (x @ '' '' @ joinStr '' '' ts) = x # words_js ('' '' @ joinStr '' '' ts)"
      using Cons.prems by (intro words_js_token) (auto simp: isAsciiSpace_def)
    moreover have "words_js ('' '' @ joinStr '' '' ts) = words_js (joinStr '' '' ts)"
      using words_js_skip[of "'' '' @ joinStr '' '' ts"] words_js_skip[of "joinStr '' '' ts"]
      by (simp add: isAsciiSpace_def)
    ultimately show ?thesis using Cons.IH Cons.prems Cons by simp
  qed
qed

lemma fold_add: "set (fold add cl xs) = set xs \<union> set cl \<and> (distinct xs \<longrightarrow> distinct (fold add cl xs))"
  by (induction cl arbitrary: xs) (auto simp: add_def)

lemma classTokens_good: "distinct (classTokens a)" "t \<in> set (classTokens a) \<Longrightarrow> \<not> badToken t"
  by (auto simp: classTokens_def words_js_good split: option.splits)

lemma classTokens_classAdd:
  assumes "\<forall>c \<in> set cl. \<not> badToken c"
  shows "set (classTokens (classAdd cl a)) = set (classTokens a) \<union> set cl"
proof -
  define ts where "ts = fold add cl (classTokens a)"
  have s: "set ts = set (classTokens a) \<union> set cl" and d: "distinct ts"
    using fold_add[of cl "classTokens a"] classTokens_good(1)[of a] by (simp_all add: ts_def)
  have g: "\<forall>t \<in> set ts. \<not> badToken t" using s assms classTokens_good(2)[of _ a] by auto
  have "classTokens (classAdd cl a) = rev (remdups (rev (words_js (joinStr '' '' ts))))"
    by (simp add: classAdd_def classTokens_def getAttribute_setAttribute ts_def)
  also have "\<dots> = ts" using words_js_join[OF g] d by (simp add: distinct_remdups_id)
  finally show ?thesis using s by simp
qed

section \<open>Properties of the pass over the parent attributes\<close>

lemma parentStep_Inr:
  assumes "parentStep b p = Inr b'"
  shows "\<exists>v. parentVal b p = Some v \<and> (\<forall>c \<in> set (splitStr '' '' v). \<not> badToken c)
             \<and> b' = editAttrs (butlast p) (classAdd (splitStr '' '' v))
                      (editAttrs p (removeAttribute ''parent'') b)"
  using assms
  by (auto simp: parentStep_def parentVal_def Let_def split: option.splits if_splits)

lemma parentStep_total:
  assumes "parentVal b p = Some v" "\<forall>c \<in> set (splitStr '' '' v). \<not> badToken c"
  shows "parentStep b p = Inr (editAttrs (butlast p) (classAdd (splitStr '' '' v))
                               (editAttrs p (removeAttribute ''parent'') b))"
  using assms
  by (auto simp: parentStep_def parentVal_def Let_def split: option.splits)

lemma butlast_neq: "p \<noteq> [] \<Longrightarrow> butlast p \<noteq> p"
  by (metis length_butlast diff_less length_greater_0_conv less_numeral_extra(1) less_irrefl)

text \<open>What one step of the loop does to the attributes of every element.\<close>

lemma step_effect:
  assumes p: "p \<noteq> []" and good: "\<forall>c \<in> set cl. \<not> badToken c"
    and par: "attrsAt b (butlast p) \<noteq> None"
  defines "b' \<equiv> editAttrs (butlast p) (classAdd cl) (editAttrs p (removeAttribute ''parent'') b)"
  shows "elems b' = elems b"
    and "parentVal b' q = (if q = p then None else parentVal b q)"
    and "classesAt b q \<subseteq> classesAt b' q"
    and "set cl \<subseteq> classesAt b' (butlast p)"
    and "attrsAt b' q = None \<longleftrightarrow> attrsAt b q = None"
proof -
  have a: "attrsAt b' q =
      (if q = butlast p then map_option (classAdd cl) (attrsAt b q)
       else if q = p then map_option (removeAttribute ''parent'') (attrsAt b q)
       else attrsAt b q)" for q
    unfolding b'_def attrsAt_editAttrs using butlast_neq[OF p] by auto
  show "elems b' = elems b" unfolding b'_def by (simp add: elems_editAttrs)
  show "parentVal b' q = (if q = p then None else parentVal b q)"
    unfolding parentVal_def a using butlast_neq[OF p]
    by (auto simp: parent_classAdd getAttribute_removeAttribute split: option.splits)
  show "classesAt b q \<subseteq> classesAt b' q"
    unfolding classesAt_def a
    by (auto simp: classTokens_classAdd[OF good] classTokens_removeAttribute split: option.splits)
  show "set cl \<subseteq> classesAt b' (butlast p)"
    unfolding classesAt_def a using par
    by (auto simp: classTokens_classAdd[OF good] split: option.splits)
  show "attrsAt b' q = None \<longleftrightarrow> attrsAt b q = None"
    unfolding a by auto
qed

lemma parentLoop_inv:
  assumes "parentLoop b ps = Inr b'"
    and "\<forall>p \<in> set ps. p \<noteq> [] \<and> attrsAt b (butlast p) \<noteq> None"
  shows "elems b' = elems b
       \<and> (\<forall>q. parentVal b' q = (if q \<in> set ps then None else parentVal b q))
       \<and> (\<forall>q. classesAt b q \<subseteq> classesAt b' q)
       \<and> (\<forall>p \<in> set ps. \<forall>v. parentVal b p = Some v \<longrightarrow> set (splitStr '' '' v) \<subseteq> classesAt b' (butlast p))
       \<and> (\<forall>q. attrsAt b' q = None \<longleftrightarrow> attrsAt b q = None)"
  using assms
proof (induction ps arbitrary: b)
  case Nil
  then show ?case by simp
next
  case (Cons p ps)
  from Cons.prems(1) obtain b1 where s: "parentStep b p = Inr b1" and l: "parentLoop b1 ps = Inr b'"
    by (auto split: sum.splits)
  from parentStep_Inr[OF s] obtain v where v: "parentVal b p = Some v"
    and good: "\<forall>c \<in> set (splitStr '' '' v). \<not> badToken c"
    and b1: "b1 = editAttrs (butlast p) (classAdd (splitStr '' '' v))
                    (editAttrs p (removeAttribute ''parent'') b)"
    by blast
  have p: "p \<noteq> []" and par: "attrsAt b (butlast p) \<noteq> None" using Cons.prems(2) by auto
  note e = step_effect[OF p good par, folded b1]
  have pre: "\<forall>p \<in> set ps. p \<noteq> [] \<and> attrsAt b1 (butlast p) \<noteq> None"
    using Cons.prems(2) e(5) by auto
  note IH = Cons.IH[OF l pre]
  have 1: "elems b' = elems b" using IH e(1) by simp
  have 2: "\<forall>q. parentVal b' q = (if q \<in> set (p # ps) then None else parentVal b q)"
    using IH e(2) by auto
  have 3: "\<forall>q. classesAt b q \<subseteq> classesAt b' q"
    using IH e(3) by (meson subset_trans)
  have 4: "\<forall>p' \<in> set (p # ps). \<forall>v'. parentVal b p' = Some v'
             \<longrightarrow> set (splitStr '' '' v') \<subseteq> classesAt b' (butlast p')"
  proof (intro ballI allI impI)
    fix p' v' assume m: "p' \<in> set (p # ps)" and v': "parentVal b p' = Some v'"
    show "set (splitStr '' '' v') \<subseteq> classesAt b' (butlast p')"
    proof (cases "p' = p")
      case True
      then have "v' = v" using v v' by simp
      moreover have "classesAt b1 (butlast p) \<subseteq> classesAt b' (butlast p)" using IH by blast
      ultimately show ?thesis using e(4) True by blast
    next
      case False
      then have "p' \<in> set ps" "parentVal b1 p' = Some v'" using m v' e(2)[of p'] by auto
      then show ?thesis using IH by blast
    qed
  qed
  have 5: "\<forall>q. attrsAt b' q = None \<longleftrightarrow> attrsAt b q = None" using IH e(5) by simp
  from 1 2 3 4 5 show ?case by blast
qed

lemma parentLoop_total:
  assumes "distinct ps"
    and "\<forall>p \<in> set ps. p \<noteq> [] \<and> attrsAt b (butlast p) \<noteq> None
           \<and> (\<exists>v. parentVal b p = Some v \<and> (\<forall>c \<in> set (splitStr '' '' v). \<not> badToken c))"
  shows "\<exists>b'. parentLoop b ps = Inr b'"
  using assms
proof (induction ps arbitrary: b)
  case Nil
  then show ?case by simp
next
  case (Cons p ps)
  from Cons.prems(2) obtain v where v: "parentVal b p = Some v"
    and good: "\<forall>c \<in> set (splitStr '' '' v). \<not> badToken c"
    and p: "p \<noteq> []" and par: "attrsAt b (butlast p) \<noteq> None" by auto
  define b1 where "b1 = editAttrs (butlast p) (classAdd (splitStr '' '' v))
                    (editAttrs p (removeAttribute ''parent'') b)"
  have s: "parentStep b p = Inr b1" unfolding b1_def using v good by (rule parentStep_total)
  note e = step_effect[OF p good par, folded b1_def]
  have pre: "\<forall>q \<in> set ps. q \<noteq> [] \<and> attrsAt b1 (butlast q) \<noteq> None
           \<and> (\<exists>v. parentVal b1 q = Some v \<and> (\<forall>c \<in> set (splitStr '' '' v). \<not> badToken c))"
    using Cons.prems e(2) e(5) by auto
  have "distinct ps" using Cons.prems(1) by simp
  from Cons.IH[OF this pre] obtain b' where "parentLoop b1 ps = Inr b'" by blast
  then show ?case using s by simp
qed

lemma elems_parent:
  assumes "p \<in> set (elems b)"
  shows "p \<noteq> [] \<and> attrsAt b (butlast p) \<noteq> None \<and> attrsAt b p \<noteq> None"
proof -
  from elems_paths(1)[OF assms] obtain t a cs where p: "p \<noteq> []"
    and g: "getNode p b = Some (Element t a cs)" by blast
  from parent_is_element[OF g p] show ?thesis using p g by (auto simp: attrsAt_def)
qed

lemma hasParent_parentVal: "hasParent b p \<longleftrightarrow> parentVal b p \<noteq> None"
  by (auto simp: hasParent_def parentVal_def split: option.splits)

lemma parentPass_inv:
  assumes "parentPass b = Inr b'"
  shows "elems b' = elems b"
    and "\<forall>p \<in> set (elems b'). \<not> hasParent b' p"
    and "\<forall>p \<in> set (elems b). \<forall>v. parentVal b p = Some v
            \<longrightarrow> set (splitStr '' '' v) \<subseteq> classesAt b' (butlast p)"
    and "\<forall>q. classesAt b q \<subseteq> classesAt b' q"
proof -
  let ?ps = "filter (hasParent b) (elems b)"
  have l: "parentLoop b ?ps = Inr b'" using assms by (simp add: parentPass_def)
  have pre: "\<forall>p \<in> set ?ps. p \<noteq> [] \<and> attrsAt b (butlast p) \<noteq> None"
    using elems_parent by auto
  note i = parentLoop_inv[OF l pre]
  show "elems b' = elems b" using i by blast
  show "\<forall>p \<in> set (elems b'). \<not> hasParent b' p"
  proof
    fix p assume "p \<in> set (elems b')"
    then have m: "p \<in> set (elems b)" using i by simp
    have "parentVal b' p = (if p \<in> set ?ps then None else parentVal b p)" using i by blast
    then have "parentVal b' p = None" using m by (auto simp: hasParent_parentVal)
    then show "\<not> hasParent b' p" by (simp add: hasParent_parentVal)
  qed
  show "\<forall>p \<in> set (elems b). \<forall>v. parentVal b p = Some v
            \<longrightarrow> set (splitStr '' '' v) \<subseteq> classesAt b' (butlast p)"
  proof (intro ballI allI impI)
    fix p v assume "p \<in> set (elems b)" "parentVal b p = Some v"
    then have "p \<in> set ?ps" by (simp add: hasParent_parentVal)
    then show "set (splitStr '' '' v) \<subseteq> classesAt b' (butlast p)"
      using i \<open>parentVal b p = Some v\<close> by blast
  qed
  show "\<forall>q. classesAt b q \<subseteq> classesAt b' q" using i by blast
qed

lemma parentPass_total:
  assumes "\<forall>p \<in> set (elems b). \<forall>v. parentVal b p = Some v
             \<longrightarrow> (\<forall>c \<in> set (splitStr '' '' v). \<not> badToken c)"
  shows "\<exists>b'. parentPass b = Inr b'"
proof -
  let ?ps = "filter (hasParent b) (elems b)"
  have "distinct ?ps" using elems_distinct(1) by simp
  moreover have "\<forall>p \<in> set ?ps. p \<noteq> [] \<and> attrsAt b (butlast p) \<noteq> None
           \<and> (\<exists>v. parentVal b p = Some v \<and> (\<forall>c \<in> set (splitStr '' '' v). \<not> badToken c))"
    using elems_parent assms by (auto simp: hasParent_parentVal)
  ultimately show ?thesis unfolding parentPass_def by (rule parentLoop_total)
qed

section \<open>Properties of the pass over the step elements\<close>

lemma getProp_setProp: "getProp (setProp k v ob) k' = (if k' = k then Some v else getProp ob k')"
  by (induction ob) (auto simp: getProp_def)

lemma stepAttrs_id: "getAttribute (stepAttrs d a) ''id'' = Some (toStr (getProp d ''id''))"
  by (simp add: stepAttrs_def Let_def getAttribute_setAttribute)

lemma stepAttrs_parent: "getAttribute (stepAttrs d a) ''parent'' = getAttribute a ''parent''"
  by (simp add: stepAttrs_def Let_def getAttribute_setAttribute)

lemma isStep_Cons:
  "isStep n (j # q) = (case child j n of None \<Rightarrow> False | Some c \<Rightarrow> isStep c q)"
  by (auto simp: isStep_def split: option.splits)

lemma isStep_editAttrs: "isStep (editAttrs p g b) q = isStep b q"
proof (induction p arbitrary: b q)
  case Nil
  show ?case
  proof (cases q)
    case Nil
    then show ?thesis by (cases b) (auto simp: editAttrs_def isStep_def onAttrs_def)
  next
    case (Cons j q')
    then show ?thesis by (simp add: editAttrs_def isStep_def child_onAttrs)
  qed
next
  case (Cons i p)
  have e: "editAttrs (i # p) g b = onChild i (editAttrs p g) b"
    by (simp add: editAttrs_def)
  show ?case
  proof (cases q)
    case Nil
    then show ?thesis unfolding e by (cases b) (auto simp: isStep_def onChild_def)
  next
    case (Cons j q')
    show ?thesis
    proof (cases "child i b")
      case None
      then show ?thesis unfolding Cons e isStep_Cons child_onChild by auto
    next
      case (Some c)
      then show ?thesis
        unfolding Cons e isStep_Cons child_onChild using Cons.IH[of c q'] by auto
    qed
  qed
qed

lemma stepElements_editAttrs: "stepElements (editAttrs p g b) = stepElements b"
proof -
  have "isStep (editAttrs p g b) = isStep b" using isStep_editAttrs by blast
  then show ?thesis by (simp add: stepElements_def elems_editAttrs)
qed

lemma stepAt_Inr:
  assumes "stepAt i p (sv, b) = Inr (sv', b')"
  shows "\<exists>g. b' = editAttrs p g b \<and> (\<forall>a. getAttribute (g a) ''parent'' = getAttribute a ''parent'')"
proof (cases sv)
  case (Steps ss)
  with assms obtain d where "b' = editAttrs p (stepAttrs d) b"
    by (auto simp: stepAt_def Let_def split: option.splits)
  then show ?thesis using stepAttrs_parent by blast
next
  case (Overwritten v)
  with assms have "b' = editAttrs p (setAttribute ''id'' ''undefined'') b"
    by (cases v) (auto simp: stepAt_def split: if_splits)
  moreover have "\<forall>a. getAttribute (setAttribute ''id'' ''undefined'' a) ''parent'' = getAttribute a ''parent''"
    by (simp add: getAttribute_setAttribute)
  ultimately show ?thesis by blast
qed

lemma stepLoop_tree:
  "stepLoop i ps (sv, b) = Inr (sv', b')
   \<Longrightarrow> elems b' = elems b \<and> stepElements b' = stepElements b \<and> (\<forall>q. parentVal b' q = parentVal b q)"
proof (induction ps arbitrary: i sv b)
  case Nil
  then show ?case by simp
next
  case (Cons p ps)
  from Cons.prems obtain sv1 b1 where s: "stepAt i p (sv, b) = Inr (sv1, b1)"
    and l: "stepLoop (Suc i) ps (sv1, b1) = Inr (sv', b')"
    by (auto split: sum.splits)
  from stepAt_Inr[OF s] obtain g where g: "b1 = editAttrs p g b"
    "\<forall>a. getAttribute (g a) ''parent'' = getAttribute a ''parent''" by blast
  have "\<forall>q. parentVal b1 q = parentVal b q"
    unfolding g(1) parentVal_def attrsAt_editAttrs using g(2) by (auto split: option.splits)
  then show ?case
    using Cons.IH[OF l] by (simp add: g(1) elems_editAttrs stepElements_editAttrs)
qed

lemma stepLoop_Steps:
  assumes "stepLoop i ps (Steps ss, b) = Inr (sv', b')" and "distinct ps"
    and "\<forall>p \<in> set ps. attrsAt b p \<noteq> None"
  shows "\<exists>ss'. sv' = Steps ss' \<and> length ss' = length ss
           \<and> (ps \<noteq> [] \<longrightarrow> i + length ps \<le> length ss)
           \<and> (\<forall>k < length ps.
                 getProp (ss' ! (i + k)) ''id''
                   = (if truthy (getProp (ss ! (i + k)) ''id'') then getProp (ss ! (i + k)) ''id''
                      else Some (Str (''step-'' @ showNat (i + k))))
                 \<and> idAt b' (ps ! k) = Some (toStr (getProp (ss' ! (i + k)) ''id'')))
           \<and> (\<forall>j. j < i \<or> i + length ps \<le> j \<longrightarrow> ss' ! j = ss ! j)
           \<and> (\<forall>q. q \<notin> set ps \<longrightarrow> attrsAt b' q = attrsAt b q)"
  using assms
proof (induction ps arbitrary: i ss b)
  case Nil
  then show ?case by auto
next
  case (Cons p ps)
  from Cons.prems(1) obtain x where s: "stepAt i p (Steps ss, b) = Inr x"
    and l: "stepLoop (Suc i) ps x = Inr (sv', b')"
    by (auto split: sum.splits)
  define d where "d = (if \<not> truthy (getProp (ss ! i) ''id'')
                       then setProp ''id'' (Str (''step-'' @ showNat i)) (ss ! i) else ss ! i)"
  have i: "i < length ss"
  proof (rule ccontr)
    assume "\<not> i < length ss"
    then have "stepAt i p (Steps ss, b) = Inl TypeError" by (simp add: stepAt_def nth_js_def)
    with s show False by simp
  qed
  have "stepAt i p (Steps ss, b) = Inr (Steps (ss[i := d]), editAttrs p (stepAttrs d) b)"
    using i unfolding stepAt_def d_def by (simp add: nth_js_def Let_def)
  with s have x: "x = (Steps (ss[i := d]), editAttrs p (stepAttrs d) b)" by simp
  define b1 where "b1 = editAttrs p (stepAttrs d) b"
  have l': "stepLoop (Suc i) ps (Steps (ss[i := d]), b1) = Inr (sv', b')" using l x b1_def by simp
  have pre: "\<forall>q \<in> set ps. attrsAt b1 q \<noteq> None"
    using Cons.prems(3) unfolding b1_def attrsAt_editAttrs by auto
  have dps: "distinct ps" and pn: "p \<notin> set ps" using Cons.prems(2) by auto
  from Cons.IH[OF l' dps pre] obtain ss' where
    sv': "sv' = Steps ss'" and len: "length ss' = length ss"
    and bound: "ps \<noteq> [] \<longrightarrow> Suc i + length ps \<le> length ss"
    and ids: "\<forall>k < length ps.
                 getProp (ss' ! (Suc i + k)) ''id''
                   = (if truthy (getProp ((ss[i := d]) ! (Suc i + k)) ''id'')
                      then getProp ((ss[i := d]) ! (Suc i + k)) ''id''
                      else Some (Str (''step-'' @ showNat (Suc i + k))))
                 \<and> idAt b' (ps ! k) = Some (toStr (getProp (ss' ! (Suc i + k)) ''id''))"
    and frame: "\<forall>j. j < Suc i \<or> Suc i + length ps \<le> j \<longrightarrow> ss' ! j = (ss[i := d]) ! j"
    and attrs: "\<forall>q. q \<notin> set ps \<longrightarrow> attrsAt b' q = attrsAt b1 q"
    by auto
  have ssi: "ss' ! i = d" using frame i by simp
  have did: "getProp d ''id''
      = (if truthy (getProp (ss ! i) ''id'') then getProp (ss ! i) ''id''
         else Some (Str (''step-'' @ showNat i)))"
    by (simp add: d_def getProp_setProp)
  have pat: "attrsAt b' p = map_option (stepAttrs d) (attrsAt b p)"
    using attrs pn unfolding b1_def attrsAt_editAttrs by simp
  have pid: "idAt b' p = Some (toStr (getProp d ''id''))"
    using Cons.prems(3) unfolding idAt_def pat by (auto simp: stepAttrs_id)
  have all: "\<forall>k < length (p # ps).
                 getProp (ss' ! (i + k)) ''id''
                   = (if truthy (getProp (ss ! (i + k)) ''id'') then getProp (ss ! (i + k)) ''id''
                      else Some (Str (''step-'' @ showNat (i + k))))
                 \<and> idAt b' ((p # ps) ! k) = Some (toStr (getProp (ss' ! (i + k)) ''id''))"
  proof (intro allI impI)
    fix k assume k: "k < length (p # ps)"
    show "getProp (ss' ! (i + k)) ''id''
                   = (if truthy (getProp (ss ! (i + k)) ''id'') then getProp (ss ! (i + k)) ''id''
                      else Some (Str (''step-'' @ showNat (i + k))))
                 \<and> idAt b' ((p # ps) ! k) = Some (toStr (getProp (ss' ! (i + k)) ''id''))"
    proof (cases k)
      case 0
      then show ?thesis using ssi did pid by simp
    next
      case (Suc m)
      then have m: "m < length ps" using k by simp
      have "(ss[i := d]) ! (Suc i + m) = ss ! (Suc i + m)" by simp
      then show ?thesis using ids m Suc by simp
    qed
  qed
  have fr: "\<forall>j. j < i \<or> i + length (p # ps) \<le> j \<longrightarrow> ss' ! j = ss ! j"
    using frame by auto
  have at: "\<forall>q. q \<notin> set (p # ps) \<longrightarrow> attrsAt b' q = attrsAt b q"
    using attrs unfolding b1_def attrsAt_editAttrs by auto
  have bd: "i + length (p # ps) \<le> length ss" using bound i by (cases ps) auto
  from sv' len bd all fr at show ?case by blast
qed

lemma stepAt_Steps:
  assumes "i < length ss"
  shows "\<exists>d. stepAt i p (Steps ss, b) = Inr (Steps (ss[i := d]), editAttrs p (stepAttrs d) b)"
proof -
  define d where "d = (if \<not> truthy (getProp (ss ! i) ''id'')
                       then setProp ''id'' (Str (''step-'' @ showNat i)) (ss ! i) else ss ! i)"
  have "stepAt i p (Steps ss, b) = Inr (Steps (ss[i := d]), editAttrs p (stepAttrs d) b)"
    using assms unfolding stepAt_def d_def by (simp add: nth_js_def Let_def)
  then show ?thesis by blast
qed

lemma stepLoop_total:
  "i + length ps \<le> length ss \<Longrightarrow> \<exists>x. stepLoop i ps (Steps ss, b) = Inr x"
proof (induction ps arbitrary: i ss b)
  case Nil
  then show ?case by simp
next
  case (Cons p ps)
  then have i: "i < length ss" by simp
  from stepAt_Steps[OF i] obtain d where
    s: "stepAt i p (Steps ss, b) = Inr (Steps (ss[i := d]), editAttrs p (stepAttrs d) b)"
    by blast
  have "Suc i + length ps \<le> length (ss[i := d])" using Cons.prems by simp
  from Cons.IH[OF this] obtain x where
    "stepLoop (Suc i) ps (Steps (ss[i := d]), editAttrs p (stepAttrs d) b) = Inr x"
    by blast
  then show ?case using s by simp
qed

lemma stepElements_attrs: "p \<in> set (stepElements b) \<Longrightarrow> attrsAt b p \<noteq> None"
proof -
  assume "p \<in> set (stepElements b)"
  then have "p \<in> set (elems b)" by (simp add: stepElements_def)
  then show ?thesis using elems_parent by blast
qed

lemma stepLoop_Over:
  assumes "stepLoop i ps (Overwritten v, b) = Inr (sv', b')" and "distinct ps"
    and "\<forall>p \<in> set ps. attrsAt b p \<noteq> None"
  shows "sv' = Overwritten v
         \<and> (ps \<noteq> [] \<longrightarrow> (\<exists>x. v = Str x \<and> i + length ps \<le> length x))
         \<and> (\<forall>k < length ps. idAt b' (ps ! k) = Some ''undefined'')
         \<and> (\<forall>q. q \<notin> set ps \<longrightarrow> attrsAt b' q = attrsAt b q)"
  using assms
proof (induction ps arbitrary: i b)
  case Nil
  then show ?case by auto
next
  case (Cons p ps)
  from Cons.prems(1) obtain y where s: "stepAt i p (Overwritten v, b) = Inr y"
    and l: "stepLoop (Suc i) ps y = Inr (sv', b')"
    by (auto split: sum.splits)
  define b1 where "b1 = editAttrs p (setAttribute ''id'' ''undefined'') b"
  from s obtain x where v: "v = Str x" and i: "i < length x" and y: "y = (Overwritten v, b1)"
    unfolding b1_def by (cases v) (auto simp: stepAt_def split: if_splits)
  have l': "stepLoop (Suc i) ps (Overwritten v, b1) = Inr (sv', b')" using l y by simp
  have pre: "\<forall>q \<in> set ps. attrsAt b1 q \<noteq> None"
    using Cons.prems(3) unfolding b1_def attrsAt_editAttrs by auto
  have dps: "distinct ps" and pn: "p \<notin> set ps" using Cons.prems(2) by auto
  from Cons.IH[OF l' dps pre] have
    sv': "sv' = Overwritten v"
    and bound: "ps \<noteq> [] \<longrightarrow> (\<exists>x. v = Str x \<and> Suc i + length ps \<le> length x)"
    and ids: "\<forall>k < length ps. idAt b' (ps ! k) = Some ''undefined''"
    and attrs: "\<forall>q. q \<notin> set ps \<longrightarrow> attrsAt b' q = attrsAt b1 q"
    by auto
  have pat: "attrsAt b' p = map_option (setAttribute ''id'' ''undefined'') (attrsAt b p)"
    using attrs pn unfolding b1_def attrsAt_editAttrs by simp
  have pid: "idAt b' p = Some ''undefined''"
    using Cons.prems(3) unfolding idAt_def pat by (auto simp: getAttribute_setAttribute)
  have all: "\<forall>k < length (p # ps). idAt b' ((p # ps) ! k) = Some ''undefined''"
  proof (intro allI impI)
    fix k assume k: "k < length (p # ps)"
    show "idAt b' ((p # ps) ! k) = Some ''undefined''"
    proof (cases k)
      case 0
      then show ?thesis using pid by simp
    next
      case (Suc m)
      then show ?thesis using ids k by simp
    qed
  qed
  have at: "\<forall>q. q \<notin> set (p # ps) \<longrightarrow> attrsAt b' q = attrsAt b q"
    using attrs unfolding b1_def attrsAt_editAttrs by auto
  have bd: "\<exists>x. v = Str x \<and> i + length (p # ps) \<le> length x"
    using bound v i by (cases ps) auto
  from sv' bd all at show ?case by blast
qed

section \<open>The passes of \<^verbatim>\<open>parseFull\<close> over the tree\<close>

lemma stepLoop_Overwritten:
  "stepLoop i ps (Overwritten v, b) = Inr (sv', b') \<Longrightarrow> sv' = Overwritten v"
proof (induction ps arbitrary: i b)
  case Nil
  then show ?case by simp
next
  case (Cons p ps)
  from Cons.prems obtain x where s: "stepAt i p (Overwritten v, b) = Inr x"
    and l: "stepLoop (Suc i) ps x = Inr (sv', b')"
    by (auto split: sum.splits)
  from s obtain b1 where "x = (Overwritten v, b1)"
    by (cases v) (auto simp: stepAt_def split: if_splits)
  then show ?case using Cons.IH l by blast
qed

lemma parseTree_passes:
  assumes "parseTree E ident content path s0 = Inr (t, s)"
  shows "\<exists>b2 b3 (s2 :: state). parentPass b2 = Inr b3 \<and> stepPass (data s2) b3 = Inr (data s, t)"
  using assms unfolding parseTree_def Let_def
  apply (auto split: sum.splits prod.splits)
  apply (metis state.select_convs(3) state.surjective state.update_convs(3))
  done

text \<open>
  Claim C9, as stated, fails: \<^verbatim>\<open>classList.add\<close> refuses an empty token and a token with
  whitespace, and the value of the attribute is split at single blanks only. An element
  whose \<^verbatim>\<open>parent\<close> attribute is empty, or has two blanks in a row, loses the attribute, and
  the pass ends there with the exception of the DOM: nothing is added to the class list
  of its parent.
\<close>

theorem empty_parent_token_throws:
  "parentPass (Element ''body'' [] [Element ''div'' [] [Element ''p'' [(''parent'', ''a  b'')] []]])
     = Inl DOMException
   \<and> parentPass (Element ''body'' [] [Element ''div'' [] [Element ''p'' [(''parent'', '''')] []]])
     = Inl DOMException"
  by code_simp

text \<open>
  Claim C9, amended: when every token of every \<^verbatim>\<open>parent\<close> attribute (its value split at
  single blanks) is a non-empty text without whitespace, the pass returns; and whenever
  it returns, the tree has the same elements, none of them has a \<^verbatim>\<open>parent\<close> attribute, the
  tokens of each \<^verbatim>\<open>parent\<close> attribute are in the class list of the parent node of its
  element, and no class list has lost a member. No \<^verbatim>\<open>parent\<close> attribute is in the tree that
  \<^verbatim>\<open>parseFull\<close> serializes.
\<close>

theorem parent_attributes_consumed:
  "((\<forall>p \<in> set (elems b). \<forall>v. parentVal b p = Some v
        \<longrightarrow> (\<forall>c \<in> set (splitStr '' '' v). \<not> badToken c))
      \<longrightarrow> (\<exists>b'. parentPass b = Inr b'))
   \<and> (parentPass b = Inr b' \<longrightarrow>
        elems b' = elems b
        \<and> (\<forall>p \<in> set (elems b'). parentVal b' p = None)
        \<and> (\<forall>p \<in> set (elems b). \<forall>v. parentVal b p = Some v
              \<longrightarrow> set (splitStr '' '' v) \<subseteq> classesAt b' (butlast p))
        \<and> (\<forall>q. classesAt b q \<subseteq> classesAt b' q))
   \<and> (parseTree E ident content path s0 = Inr (t, s)
        \<longrightarrow> (\<forall>p \<in> set (elems t). parentVal t p = None))"
proof (intro conjI impI)
  assume "\<forall>p \<in> set (elems b). \<forall>v. parentVal b p = Some v
        \<longrightarrow> (\<forall>c \<in> set (splitStr '' '' v). \<not> badToken c)"
  then show "\<exists>b'. parentPass b = Inr b'" by (rule parentPass_total)
next
  assume a: "parentPass b = Inr b'"
  show "elems b' = elems b" using parentPass_inv(1)[OF a] .
  show "\<forall>p \<in> set (elems b'). parentVal b' p = None"
    using parentPass_inv(2)[OF a] by (simp add: hasParent_parentVal)
  show "\<forall>p \<in> set (elems b). \<forall>v. parentVal b p = Some v
              \<longrightarrow> set (splitStr '' '' v) \<subseteq> classesAt b' (butlast p)"
    using parentPass_inv(3)[OF a] .
  show "\<forall>q. classesAt b q \<subseteq> classesAt b' q" using parentPass_inv(4)[OF a] .
next
  assume "parseTree E ident content path s0 = Inr (t, s)"
  from parseTree_passes[OF this] obtain b2 b3 and s2 :: state where
    p: "parentPass b2 = Inr b3" and st: "stepPass (data s2) b3 = Inr (data s, t)" by blast
  from st obtain sv where "stepLoop 0 (filter (isStep b3) (elems b3)) (steps (data s2), b3) = Inr (sv, t)"
    unfolding stepPass_def by (auto split: sum.splits prod.splits)
  from stepLoop_tree[OF this] have "elems t = elems b3" "\<forall>q. parentVal t q = parentVal b3 q"
    by simp_all
  then show "\<forall>p \<in> set (elems t). parentVal t p = None"
    using parentPass_inv(2)[OF p] by (simp add: hasParent_parentVal)
qed

theorem parent_attributes_consumed_witness:
  "parentPass (Element ''body'' []
       [Element ''div'' [(''class'', ''row'')] [Element ''p'' [(''parent'', ''wide big'')] [TextNode ''hi'']]])
     = Inr (Element ''body'' []
         [Element ''div'' [(''class'', ''row wide big'')] [Element ''p'' [] [TextNode ''hi'']]])
   \<and> parentVal (Element ''body'' []
         [Element ''div'' [(''class'', ''row wide big'')] [Element ''p'' [] [TextNode ''hi'']]]) [0, 0] = None
   \<and> (case parseTree env_examples ''doc''
          ''---\<newline>\<newline>> id: intro\<newline>\<newline>    p(parent=\"wide\") hi\<newline>\<newline>---\<newline>\<newline>bye'' ''/dir'' initial of
         Inl e \<Rightarrow> False
       | Inr (t, s) \<Rightarrow>
           t = Element ''body'' []
                 [Element ''x-step'' [(''class'', ''wide''), (''id'', ''intro'')]
                    [Element ''p'' [] [TextNode ''hi'']],
                  Element ''x-step'' [(''id'', ''step-1'')] [Element ''p'' [] [TextNode ''bye'']]]
           \<and> parentVal t [0, 0] = None)"
proof -
  let ?b = "Element ''body'' []
       [Element ''div'' [(''class'', ''row'')] [Element ''p'' [(''parent'', ''wide big'')] [TextNode ''hi'']]]"
  let ?b' = "Element ''body'' []
         [Element ''div'' [(''class'', ''row wide big'')] [Element ''p'' [] [TextNode ''hi'']]]"
  let ?t = "Element ''body'' []
                 [Element ''x-step'' [(''class'', ''wide''), (''id'', ''intro'')]
                    [Element ''p'' [] [TextNode ''hi'']],
                  Element ''x-step'' [(''id'', ''step-1'')] [Element ''p'' [] [TextNode ''bye'']]]"
  have e: "elems ?b = [[0], [0, 0]]" by code_simp
  have pv: "parentVal ?b [0] = None" "parentVal ?b [0, 0] = Some ''wide big''" by code_simp+
  have sp: "splitStr '' '' ''wide big'' = [''wide'', ''big'']" by code_simp
  have bt: "\<not> badToken ''wide''" "\<not> badToken ''big''" by code_simp+
  have good: "\<forall>p \<in> set (elems ?b). \<forall>v. parentVal ?b p = Some v
        \<longrightarrow> (\<forall>c \<in> set (splitStr '' '' v). \<not> badToken c)"
    unfolding e using pv sp bt by auto
  have ev: "parentPass ?b = Inr ?b'" by code_simp
  have m: "[0, 0] \<in> set (elems ?b')" "[0, 0] \<in> set (elems ?t)" by code_simp+
  have "(case parseTree env_examples ''doc''
          ''---\<newline>\<newline>> id: intro\<newline>\<newline>    p(parent=\"wide\") hi\<newline>\<newline>---\<newline>\<newline>bye'' ''/dir'' initial of
         Inl e \<Rightarrow> False | Inr (t, s) \<Rightarrow> t = ?t)"
    by code_simp
  then obtain s where
    tr: "parseTree env_examples ''doc''
          ''---\<newline>\<newline>> id: intro\<newline>\<newline>    p(parent=\"wide\") hi\<newline>\<newline>---\<newline>\<newline>bye'' ''/dir'' initial
         = Inr (?t, s)"
    by (auto split: sum.splits prod.splits)
  note T = parent_attributes_consumed[of ?b ?b' env_examples "''doc''"
      "''---\<newline>\<newline>> id: intro\<newline>\<newline>    p(parent=\"wide\") hi\<newline>\<newline>---\<newline>\<newline>bye''" "''/dir''" initial ?t s]
  from T good have "\<exists>b'. parentPass ?b = Inr b'" by blast
  from T ev m(1) have 1: "parentVal ?b' [0, 0] = None" by blast
  from T tr m(2) have 2: "parentVal ?t [0, 0] = None" by blast
  from ev 1 2 tr show ?thesis by simp
qed

text \<open>
  Claim C3, as stated, fails: \<^verbatim>\<open>renderer.hr\<close> pushes a step record and writes the opening tag
  of a step element, and \<^verbatim>\<open>renderer.blockquote\<close> returns the empty string whatever has been
  rendered inside it. A rule inside a block quote leaves a step record and no step
  element: the document below compiles to one record, with the id \<^verbatim>\<open>a\<close>, and to a body with
  no element at all.
\<close>

theorem rule_in_blockquote_adds_record_only:
  "(case parseFull env_examples ''doc'' ''> ---\<newline>>\<newline>> id: a'' ''/dir'' initial of
      Inl e \<Rightarrow> False
    | Inr (r, s) \<Rightarrow>
        steps (res_data r) = Steps [[(''id'', Str ''a'')]] \<and> res_steps r = [] \<and> res_html r = '''')
   \<and> (case parseTree env_examples ''doc'' ''> ---\<newline>>\<newline>> id: a'' ''/dir'' initial of
      Inl e \<Rightarrow> False
    | Inr (t, s) \<Rightarrow> stepElements t = [])"
  by code_simp

text \<open>
  Claim C3, amended: the step elements, in document order, are paired by position with the
  step records. When there are at least as many records as step elements the pass returns;
  whenever it returns there are at least as many records as step elements, the step
  elements are the same, there are as many records as before, the record at each position
  \<open>k\<close> of a step element has the id it had when that id was truthy and the id
  \<^verbatim>\<open>step-\<close>\<open>k\<close> otherwise, the \<^verbatim>\<open>id\<close> attribute of the step element at position \<open>k\<close> is that id as
  a string, and the records after the last step element are unchanged. When front matter
  has put another value in the place of the array of records and the pass returns, that
  value is a string with at least as many characters as there are step elements, and the
  \<^verbatim>\<open>id\<close> attribute of each step element is \<^verbatim>\<open>undefined\<close>. In the tree that
  \<^verbatim>\<open>parseFull\<close> serializes, the step element at each position has the truthy id of the record
  at that position.
\<close>

theorem step_ids_by_position:
  "(steps d = Steps ss \<and> length (stepElements b) \<le> length ss
      \<longrightarrow> (\<exists>d' b'. stepPass d b = Inr (d', b')))
   \<and> (steps d = Steps ss \<and> stepPass d b = Inr (d', b') \<longrightarrow>
        length (stepElements b) \<le> length ss \<and> stepElements b' = stepElements b
        \<and> (\<exists>ss'. steps d' = Steps ss' \<and> length ss' = length ss
              \<and> (\<forall>k < length (stepElements b).
                    getProp (ss' ! k) ''id''
                      = (if truthy (getProp (ss ! k) ''id'') then getProp (ss ! k) ''id''
                         else Some (Str (''step-'' @ showNat k)))
                    \<and> idAt b' (stepElements b ! k) = Some (toStr (getProp (ss' ! k) ''id'')))
              \<and> (\<forall>k \<ge> length (stepElements b). ss' ! k = ss ! k)))
   \<and> (steps d = Overwritten v \<and> stepPass d b = Inr (d', b') \<longrightarrow>
        steps d' = Overwritten v \<and> stepElements b' = stepElements b
        \<and> (stepElements b \<noteq> [] \<longrightarrow> (\<exists>x. v = Str x \<and> length (stepElements b) \<le> length x))
        \<and> (\<forall>k < length (stepElements b). idAt b' (stepElements b ! k) = Some ''undefined''))
   \<and> (parseTree E ident content path s0 = Inr (t, s) \<and> steps (data s) = Steps ss1 \<longrightarrow>
        length (stepElements t) \<le> length ss1
        \<and> (\<forall>k < length (stepElements t).
              truthy (getProp (ss1 ! k) ''id'')
              \<and> idAt t (stepElements t ! k) = Some (toStr (getProp (ss1 ! k) ''id''))))"
proof -
  have dist: "distinct (stepElements c)" for c
    by (simp add: stepElements_def elems_distinct)
  have att: "\<forall>p \<in> set (stepElements c). attrsAt c p \<noteq> None" for c
    using stepElements_attrs by blast
  have pass: "length (stepElements c) \<le> length us \<and> stepElements c' = stepElements c
        \<and> (\<exists>ss'. steps e' = Steps ss' \<and> length ss' = length us
              \<and> (\<forall>k < length (stepElements c).
                    getProp (ss' ! k) ''id''
                      = (if truthy (getProp (us ! k) ''id'') then getProp (us ! k) ''id''
                         else Some (Str (''step-'' @ showNat k)))
                    \<and> idAt c' (stepElements c ! k) = Some (toStr (getProp (ss' ! k) ''id'')))
              \<and> (\<forall>k \<ge> length (stepElements c). ss' ! k = us ! k))"
    if u: "steps e = Steps us" and r: "stepPass e c = Inr (e', c')" for e e' :: document and c c' us
  proof -
    from r u obtain sv where l: "stepLoop 0 (stepElements c) (Steps us, c) = Inr (sv, c')"
      and e': "e' = e\<lparr>steps := sv\<rparr>"
      unfolding stepPass_def stepElements_def by (auto split: sum.splits prod.splits)
    from stepLoop_tree[OF l] have same: "stepElements c' = stepElements c" by simp
    from stepLoop_Steps[OF l dist att] obtain ss' where
      sv: "sv = Steps ss'" and len: "length ss' = length us"
      and bound: "stepElements c \<noteq> [] \<longrightarrow> 0 + length (stepElements c) \<le> length us"
      and ids: "\<forall>k < length (stepElements c).
                 getProp (ss' ! (0 + k)) ''id''
                   = (if truthy (getProp (us ! (0 + k)) ''id'') then getProp (us ! (0 + k)) ''id''
                      else Some (Str (''step-'' @ showNat (0 + k))))
                 \<and> idAt c' (stepElements c ! k) = Some (toStr (getProp (ss' ! (0 + k)) ''id''))"
      and rest: "\<forall>j. j < 0 \<or> 0 + length (stepElements c) \<le> j \<longrightarrow> ss' ! j = us ! j"
      by blast
    have 1: "length (stepElements c) \<le> length us" using bound by (cases "stepElements c") simp_all
    have 2: "steps e' = Steps ss'" using e' sv by simp
    show ?thesis using 1 same 2 len ids rest by (intro conjI exI[of _ ss']) simp_all
  qed
  have over: "steps d' = Overwritten v \<and> stepElements b' = stepElements b
        \<and> (stepElements b \<noteq> [] \<longrightarrow> (\<exists>x. v = Str x \<and> length (stepElements b) \<le> length x))
        \<and> (\<forall>k < length (stepElements b). idAt b' (stepElements b ! k) = Some ''undefined'')"
    if u: "steps d = Overwritten v" and r: "stepPass d b = Inr (d', b')"
  proof -
    from r u obtain sv where l: "stepLoop 0 (stepElements b) (Overwritten v, b) = Inr (sv, b')"
      and e': "d' = d\<lparr>steps := sv\<rparr>"
      unfolding stepPass_def stepElements_def by (auto split: sum.splits prod.splits)
    from stepLoop_tree[OF l] have same: "stepElements b' = stepElements b" by simp
    from stepLoop_Over[OF l dist att] have
      sv: "sv = Overwritten v"
      and bound: "stepElements b \<noteq> [] \<longrightarrow> (\<exists>x. v = Str x \<and> 0 + length (stepElements b) \<le> length x)"
      and ids: "\<forall>k < length (stepElements b). idAt b' (stepElements b ! k) = Some ''undefined''"
      by auto
    show ?thesis using e' sv same bound ids by simp
  qed
  have total: "\<exists>d' b'. stepPass d b = Inr (d', b')"
    if u: "steps d = Steps ss" and n: "length (stepElements b) \<le> length ss"
  proof -
    from n have "0 + length (stepElements b) \<le> length ss" by simp
    from stepLoop_total[OF this] obtain x where "stepLoop 0 (stepElements b) (Steps ss, b) = Inr x"
      by blast
    then show ?thesis unfolding stepPass_def stepElements_def using u
      by (cases x) simp
  qed
  have tree: "length (stepElements t) \<le> length ss1
        \<and> (\<forall>k < length (stepElements t).
              truthy (getProp (ss1 ! k) ''id'')
              \<and> idAt t (stepElements t ! k) = Some (toStr (getProp (ss1 ! k) ''id'')))"
    if tr: "parseTree E ident content path s0 = Inr (t, s)" and f: "steps (data s) = Steps ss1"
  proof -
    from parseTree_passes[OF tr] obtain b3 and s2 :: state where
      st: "stepPass (data s2) b3 = Inr (data s, t)" by blast
    have "\<exists>us. steps (data s2) = Steps us"
    proof (cases "steps (data s2)")
      case (Steps us)
      then show ?thesis by simp
    next
      case (Overwritten v)
      from st obtain sv where l: "stepLoop 0 (filter (isStep b3) (elems b3)) (steps (data s2), b3) = Inr (sv, t)"
        and e: "data s = (data s2)\<lparr>steps := sv\<rparr>"
        unfolding stepPass_def by (auto split: sum.splits prod.splits)
      from l Overwritten have "sv = Overwritten v" using stepLoop_Overwritten by simp
      with e f show ?thesis by simp
    qed
    then obtain us where u: "steps (data s2) = Steps us" by blast
    from pass[OF u st] f obtain
      n: "length (stepElements b3) \<le> length us" and same: "stepElements t = stepElements b3"
      and len: "length ss1 = length us"
      and ids: "\<forall>k < length (stepElements b3).
                    getProp (ss1 ! k) ''id''
                      = (if truthy (getProp (us ! k) ''id'') then getProp (us ! k) ''id''
                         else Some (Str (''step-'' @ showNat k)))
                    \<and> idAt t (stepElements b3 ! k) = Some (toStr (getProp (ss1 ! k) ''id''))"
      by auto
    have "truthy (getProp (ss1 ! k) ''id'')" if "k < length (stepElements b3)" for k
      using ids that by (cases "truthy (getProp (us ! k) ''id'')") simp_all
    then show ?thesis using n same len ids by simp
  qed
  show ?thesis using pass total over tree by blast
qed

theorem step_ids_by_position_witness:
  "stepPass \<lparr>props = [], steps = Steps [[], [(''id'', Str ''x'')], []]\<rparr>
       (Element ''body'' [] [Element ''x-step'' [] [], Element ''x-step'' [] []])
     = Inr (\<lparr>props = [], steps = Steps [[(''id'', Str ''step-0'')], [(''id'', Str ''x'')], []]\<rparr>,
            Element ''body'' []
              [Element ''x-step'' [(''id'', ''step-0'')] [], Element ''x-step'' [(''id'', ''x'')] []])
   \<and> idAt (Element ''body'' []
              [Element ''x-step'' [(''id'', ''step-0'')] [], Element ''x-step'' [(''id'', ''x'')] []]) [1]
       = Some ''x''
   \<and> stepPass \<lparr>props = [], steps = Overwritten (Str ''ab'')\<rparr>
         (Element ''body'' [] [Element ''x-step'' [] []])
       = Inr (\<lparr>props = [], steps = Overwritten (Str ''ab'')\<rparr>,
              Element ''body'' [] [Element ''x-step'' [(''id'', ''undefined'')] []])
   \<and> (case parseTree env_examples ''doc''
          ''---\<newline>\<newline>> id: intro\<newline>\<newline>    p(parent=\"wide\") hi\<newline>\<newline>---\<newline>\<newline>bye'' ''/dir'' initial of
         Inl e \<Rightarrow> False
       | Inr (t, s) \<Rightarrow>
           steps (data s) = Steps [[(''id'', Str ''intro'')], [(''id'', Str ''step-1'')]]
           \<and> stepElements t = [[0], [1]]
           \<and> idAt t [0] = Some ''intro'' \<and> idAt t [1] = Some ''step-1'')"
proof -
  let ?ss = "[[], [(''id'', Str ''x'')], []] :: obj list"
  let ?ss' = "[[(''id'', Str ''step-0'')], [(''id'', Str ''x'')], []] :: obj list"
  let ?d = "\<lparr>props = [], steps = Steps ?ss\<rparr>"
  let ?d' = "\<lparr>props = [], steps = Steps ?ss'\<rparr>"
  let ?b = "Element ''body'' [] [Element ''x-step'' [] [], Element ''x-step'' [] []]"
  let ?b' = "Element ''body'' []
              [Element ''x-step'' [(''id'', ''step-0'')] [], Element ''x-step'' [(''id'', ''x'')] []]"
  let ?doc = "''---\<newline>\<newline>> id: intro\<newline>\<newline>    p(parent=\"wide\") hi\<newline>\<newline>---\<newline>\<newline>bye''"
  let ?ss1 = "[[(''id'', Str ''intro'')], [(''id'', Str ''step-1'')]] :: obj list"
  have "(case parseTree env_examples ''doc'' ?doc ''/dir'' initial of
         Inl e \<Rightarrow> False
       | Inr (t, s) \<Rightarrow> steps (data s) = Steps ?ss1 \<and> stepElements t = [[0], [1]])"
    by code_simp
  then obtain t s where tr: "parseTree env_examples ''doc'' ?doc ''/dir'' initial = Inr (t, s)"
    and f: "steps (data s) = Steps ?ss1" and el: "stepElements t = [[0], [1]]"
    by (auto split: sum.splits prod.splits)
  note T = step_ids_by_position[of ?d ?ss ?b ?d' ?b' _ env_examples "''doc''" ?doc "''/dir''" initial t s ?ss1]
  let ?o = "\<lparr>props = [], steps = Overwritten (Str ''ab'')\<rparr>"
  let ?c = "Element ''body'' [] [Element ''x-step'' [] []]"
  let ?c' = "Element ''body'' [] [Element ''x-step'' [(''id'', ''undefined'')] []]"
  have so: "steps ?o = Overwritten (Str ''ab'')" by simp
  have evo: "stepPass ?o ?c = Inr (?o, ?c')" by code_simp
  from step_ids_by_position[of ?o _ ?c ?o ?c' "Str ''ab''"] so evo
  have "stepElements ?c' = stepElements ?c" by blast
  have sd: "steps ?d = Steps ?ss" by simp
  have n: "length (stepElements ?b) \<le> length ?ss" by code_simp
  have ev: "stepPass ?d ?b = Inr (?d', ?b')" by code_simp
  have eb: "stepElements ?b = [[0], [1]]" by code_simp
  from T sd n have "\<exists>d' b'. stepPass ?d ?b = Inr (d', b')" by blast
  from T sd ev obtain ss' where s': "steps ?d' = Steps ss'"
    and ids: "\<forall>k < length (stepElements ?b).
                idAt ?b' (stepElements ?b ! k) = Some (toStr (getProp (ss' ! k) ''id''))"
    by blast
  from s' have ss': "ss' = ?ss'" by simp
  have k: "(1::nat) < length (stepElements ?b)" unfolding eb by simp
  have n1: "[[0], [1::nat]] ! 1 = [1]" "[[0], [1::nat]] ! 0 = [0]" by simp_all
  have g: "toStr (getProp (?ss' ! 1) ''id'') = ''x''" by code_simp
  from ids[rule_format, OF k]
  have "idAt ?b' ([[0], [1]] ! 1) = Some (toStr (getProp (?ss' ! 1) ''id''))"
    unfolding eb ss' .
  then have 1: "idAt ?b' [1] = Some ''x''" by (simp only: n1 g)
  from T tr f have idt: "\<forall>k < length (stepElements t).
      idAt t (stepElements t ! k) = Some (toStr (getProp (?ss1 ! k) ''id''))"
    by blast
  have k0: "(0::nat) < length (stepElements t)" and k1: "(1::nat) < length (stepElements t)"
    unfolding el by simp_all
  have g1: "toStr (getProp (?ss1 ! 0) ''id'') = ''intro''"
    "toStr (getProp (?ss1 ! 1) ''id'') = ''step-1''" by code_simp+
  from idt[rule_format, OF k0] have "idAt t ([[0], [1]] ! 0) = Some (toStr (getProp (?ss1 ! 0) ''id''))"
    unfolding el .
  then have 2: "idAt t [0] = Some ''intro''" by (simp only: n1 g1)
  from idt[rule_format, OF k1] have "idAt t ([[0], [1]] ! 1) = Some (toStr (getProp (?ss1 ! 1) ''id''))"
    unfolding el .
  then have 3: "idAt t [1] = Some ''step-1''" by (simp only: n1 g1)
  from ev 1 evo tr f el 2 3 show ?thesis by simp
qed

end
